theory Spec2Isabelle
  imports Complex_Main
begin

section \<open>The jQuery Google Maps plugin (jquery.mapify.js)\<close>

text \<open>
  The plugin is a single JavaScript file. It keeps process-wide state (the flag
  \<open>Plugin.loaded\<close>, the global array \<open>window.googleMaps\<close>, the resize timer), one
  \<open>Plugin\<close> object per element, and it drives two external collaborators: the Google
  Maps API and jQuery. The embedding threads one explicit \<open>world\<close> through every
  function. Objects live in stores indexed by identifiers, so that the closures of the
  source (listeners that capture \<open>_this\<close>) can refer to the object they captured.
  The calls the plugin makes to the Maps API are recorded, in order, on the map object
  that receives them; what the API does with them is outside this file.
\<close>

subsection \<open>JavaScript values\<close>

datatype jsval = JUndefined | JNull | JBool bool | JNum real | JNaN | JStr string

text \<open>The truthiness test of \<open>if (v)\<close> and \<open>!v\<close>.\<close>

fun truthy :: "jsval \<Rightarrow> bool" where
  "truthy JUndefined = False"
| "truthy JNull = False"
| "truthy (JBool b) = b"
| "truthy (JNum x) = (x \<noteq> 0)"
| "truthy JNaN = False"
| "truthy (JStr s) = (s \<noteq> [])"

datatype error = ReferenceError | TypeError

type_synonym inst_id = nat
type_synonym elem_id = nat
type_synonym map_id = nat
type_synonym location = "jsval \<times> jsval"
type_synonym native_opts = "(string \<times> jsval) list"

subsection \<open>Options\<close>

text \<open>
  A point as the caller writes it; a key the caller leaves out is \<open>JUndefined\<close>.
\<close>

record point =
  p_lat :: jsval
  p_lng :: jsval
  p_marker :: jsval
  p_title :: jsval
  p_infoWindow :: jsval

text \<open>
  The options of a map after \<open>$.extend({}, defaults, options)\<close>. \<open>center\<close> is
  \<open>false\<close> (\<open>None\<close>) or an object whose \<open>lat\<close> and \<open>lng\<close> properties may be undefined;
  \<open>callback\<close> is \<open>false\<close> or a function of the caller, known here by a number;
  \<open>key\<close> is \<open>false\<close> or a string.
\<close>

record map_options =
  o_callback :: "nat option"
  o_center :: "location option"
  o_key :: "string option"
  o_options :: native_opts
  o_points :: "point list"
  o_responsive :: bool
  o_zoom :: jsval

definition defaults :: map_options where
  "defaults = \<lparr>o_callback = None, o_center = None, o_key = None, o_options = [],
     o_points = [], o_responsive = False, o_zoom = JBool False\<rparr>"

datatype arg = ArgUndefined | ArgString string | ArgOptions map_options

text \<open>\<open>$.extend({}, defaults, options)\<close>: a string or no argument adds no key.\<close>

fun extend_defaults :: "arg \<Rightarrow> map_options" where
  "extend_defaults (ArgOptions opts) = opts"
| "extend_defaults _ = defaults"

subsection \<open>Objects\<close>

text \<open>An element of the page: its style attribute, its inner HTML and its data slot
  under the plugin name.\<close>

record elem =
  el_style :: "string option"
  el_html :: string
  el_data :: "inst_id option"

text \<open>The fields of a \<open>Plugin\<close> object (\<open>centered\<close> is \<open>_centered\<close>, and so on;
  \<open>gmap\<close> is the field \<open>map\<close>).\<close>

record plugin =
  element :: elem_id
  options :: map_options
  centered :: bool
  zoomed :: bool
  styles :: "string option"
  content :: "string option"
  gmap :: "map_id option"
  bounds :: "location list option"

datatype api_call =
    SetOptions native_opts
  | FitBounds "location list option"
  | SetCenter location
  | SetZoom jsval

text \<open>The two closures that \<open>zoom()\<close> registers for \<open>bounds_changed\<close>; each captures
  \<open>_this\<close> and the value to apply again.\<close>

datatype listener = CenterListener inst_id location | ZoomListener inst_id jsval

record gmap_obj =
  m_element :: elem_id
  m_calls :: "api_call list"
  m_listeners :: "listener list"

record marker_obj =
  mk_map :: "map_id option"
  mk_position :: location
  mk_icon :: "string option"
  mk_title :: "jsval option"
  mk_info :: "jsval option"

record world =
  google_defined :: bool
  Plugin_loaded :: bool
  window_googleMaps :: "inst_id list option"
  script_requests :: "string list"
  instances :: "inst_id \<Rightarrow> plugin"
  next_inst :: nat
  elements :: "elem_id \<Rightarrow> elem"
  gmaps :: "map_id \<Rightarrow> gmap_obj"
  next_map :: nat
  markers :: "marker_obj list"
  resize_handlers :: "inst_id list"
  callback_calls :: "(nat \<times> inst_id) list"
  resizeTimer :: "nat option"
  live_timers :: "nat list"
  next_timer :: nat
  html_reparse :: "string \<Rightarrow> string"

text \<open>
  \<open>google_defined\<close> is the test of \<open>load()\<close>: \<open>google\<close> and \<open>google.maps\<close> are both
  defined. \<open>script_requests\<close> holds the URLs given to \<open>$.getScript\<close>, \<open>resize_handlers\<close> the
  handlers of the custom resize event on the window, each known by the instance it
  captured, and \<open>callback_calls\<close> the calls of the \<open>callback\<close> option, a function of the
  caller: what that function does is not part of the plugin, so only its call is recorded.
  \<open>live_timers\<close> are the timers that have been set and neither cleared nor fired.
  \<open>html_reparse\<close> is the browser's part in writing inner HTML: the markup it is given
  is parsed, and reading the element afterwards gives the markup serialised again, which
  need not be the string that was written. Nothing in the plugin changes this function.

  A function of the source returns normally or throws; what it wrote before the throw
  stays written, so the exception carries the world. Using the API before it is there
  is a \<open>ReferenceError\<close>, a method call on a field that is still undefined a
  \<open>TypeError\<close>. (With \<open>google\<close> defined and \<open>google.maps\<close> not, the source raises a
  \<open>TypeError\<close> where the model says \<open>ReferenceError\<close>: \<open>google_defined\<close> does not tell
  the two ways of missing apart. The world is the same in both.)
\<close>

type_synonym 'a result = "(error \<times> world) + 'a"

fun world_of :: "world result \<Rightarrow> world" where
  "world_of (Inl (e, w)) = w"
| "world_of (Inr w) = w"

text \<open>\<open>$.each\<close> and \<open>.each\<close> of jQuery over a list whose callback never returns
  \<open>false\<close>: the callback runs on every item in order; an exception ends the loop.\<close>

fun each :: "('a \<Rightarrow> world \<Rightarrow> world result) \<Rightarrow> 'a list \<Rightarrow> world \<Rightarrow> world result" where
  "each f [] w = Inr w"
| "each f (x # xs) w =
     (case f x w of
        Inl err \<Rightarrow> Inl err
      | Inr w' \<Rightarrow> each f xs w')"

subsection \<open>Small steps on the store\<close>

definition upd_inst :: "inst_id \<Rightarrow> (plugin \<Rightarrow> plugin) \<Rightarrow> world \<Rightarrow> world" where
  "upd_inst i f w = w\<lparr>instances := (instances w)(i := f (instances w i))\<rparr>"

definition upd_elem :: "elem_id \<Rightarrow> (elem \<Rightarrow> elem) \<Rightarrow> world \<Rightarrow> world" where
  "upd_elem e f w = w\<lparr>elements := (elements w)(e := f (elements w e))\<rparr>"

text \<open>A method call on a map object of the API, recorded on that object.\<close>

definition call_map :: "map_id \<Rightarrow> api_call \<Rightarrow> world \<Rightarrow> world" where
  "call_map m c w =
     w\<lparr>gmaps := (gmaps w)(m := (gmaps w m)\<lparr>m_calls := m_calls (gmaps w m) @ [c]\<rparr>)\<rparr>"

text \<open>\<open>map.addListener('bounds_changed', f)\<close>.\<close>

definition addListener :: "map_id \<Rightarrow> listener \<Rightarrow> world \<Rightarrow> world" where
  "addListener m l w =
     w\<lparr>gmaps := (gmaps w)(m := (gmaps w m)\<lparr>m_listeners := m_listeners (gmaps w m) @ [l]\<rparr>)\<rparr>"

subsection \<open>insertPoint\<close>

text \<open>\<open>$.extend({lat: false, ...}, options)\<close>: an undefined value keeps the default.\<close>

definition or_false :: "jsval \<Rightarrow> jsval" where
  "or_false v = (if v = JUndefined then JBool False else v)"

definition point_defaults :: "point \<Rightarrow> point" where
  "point_defaults p = \<lparr>p_lat = or_false (p_lat p), p_lng = or_false (p_lng p),
     p_marker = or_false (p_marker p), p_title = or_false (p_title p),
     p_infoWindow = or_false (p_infoWindow p)\<rparr>"

text \<open>The marker of lines 240 to 265: the icon when \<open>marker\<close> is a string, the title
  when truthy, the content of the info window that a click opens when truthy.\<close>

definition new_marker :: "map_id option \<Rightarrow> location \<Rightarrow> point \<Rightarrow> marker_obj" where
  "new_marker m loc pt = \<lparr>mk_map = m, mk_position = loc,
     mk_icon = (case p_marker pt of JStr s \<Rightarrow> Some s | _ \<Rightarrow> None),
     mk_title = (if truthy (p_title pt) then Some (p_title pt) else None),
     mk_info = (if truthy (p_infoWindow pt) then Some (p_infoWindow pt) else None)\<rparr>"

definition Plugin_insertPoint :: "inst_id \<Rightarrow> point \<Rightarrow> world \<Rightarrow> world result" where
  "Plugin_insertPoint i raw w =
     (let pt = point_defaults raw in
      if \<not> truthy (p_lat pt) \<or> \<not> truthy (p_lng pt) then Inr w
      else if \<not> google_defined w then Inl (ReferenceError, w)
      else (case bounds (instances w i) of
              None \<Rightarrow> Inl (TypeError, w)
            | Some b \<Rightarrow>
                (let loc = (p_lat pt, p_lng pt);
                     w1 = upd_inst i (\<lambda>p. p\<lparr>bounds := Some (b @ [loc])\<rparr>) w
                 in if \<not> truthy (p_marker pt) then Inr w1
                    else Inr (w1\<lparr>markers := markers w1 @
                                 [new_marker (gmap (instances w1 i)) loc pt]\<rparr>))))"

subsection \<open>zoom and the bounds_changed listeners\<close>

definition zoom_center :: "inst_id \<Rightarrow> map_id \<Rightarrow> location option \<Rightarrow> world \<Rightarrow> world" where
  "zoom_center i m location w =
     (case location of
        None \<Rightarrow> w
      | Some loc \<Rightarrow>
          if fst loc \<noteq> JUndefined \<and> snd loc \<noteq> JUndefined
          then addListener m (CenterListener i loc) (call_map m (SetCenter loc) w)
          else w)"

definition zoom_zoom :: "inst_id \<Rightarrow> map_id \<Rightarrow> jsval \<Rightarrow> world \<Rightarrow> world" where
  "zoom_zoom i m z w =
     (if truthy z then addListener m (ZoomListener i z) (call_map m (SetZoom z) w)
      else w)"

definition Plugin_zoom :: "inst_id \<Rightarrow> world \<Rightarrow> world result" where
  "Plugin_zoom i w =
     (case gmap (instances w i) of
        None \<Rightarrow> Inl (TypeError, w)
      | Some m \<Rightarrow>
          Inr (zoom_zoom i m (o_zoom (options (instances w i)))
                (zoom_center i m (o_center (options (instances w i)))
                  (call_map m (FitBounds (bounds (instances w i))) w))))"

text \<open>The body of a listener, run when its map fires \<open>bounds_changed\<close>. It reads
  \<open>_this.map\<close> when it runs.\<close>

fun run_listener :: "listener \<Rightarrow> world \<Rightarrow> world result" where
  "run_listener (CenterListener i loc) w =
     (if centered (instances w i) then Inr w
      else (case gmap (instances w i) of
              None \<Rightarrow> Inl (TypeError, w)
            | Some m \<Rightarrow> Inr (upd_inst i (\<lambda>p. p\<lparr>centered := True\<rparr>) (call_map m (SetCenter loc) w))))"
| "run_listener (ZoomListener i z) w =
     (if zoomed (instances w i) then Inr w
      else (case gmap (instances w i) of
              None \<Rightarrow> Inl (TypeError, w)
            | Some m \<Rightarrow> Inr (upd_inst i (\<lambda>p. p\<lparr>zoomed := True\<rparr>) (call_map m (SetZoom z) w))))"

text \<open>The API fires \<open>bounds_changed\<close> on map \<open>m\<close>: its listeners run in the order of
  their registration.\<close>

definition bounds_changed :: "map_id \<Rightarrow> world \<Rightarrow> world result" where
  "bounds_changed m w = each run_listener (m_listeners (gmaps w m)) w"

subsection \<open>draw\<close>

definition new_map :: "inst_id \<Rightarrow> world \<Rightarrow> world" where
  "new_map i w =
     upd_inst i (\<lambda>p. p\<lparr>gmap := Some (next_map w), bounds := Some []\<rparr>)
       (w\<lparr>gmaps := (gmaps w)(next_map w :=
             \<lparr>m_element = element (instances w i), m_calls = [], m_listeners = []\<rparr>),
          next_map := Suc (next_map w)\<rparr>)"

definition subscribe_resize :: "inst_id \<Rightarrow> world \<Rightarrow> world" where
  "subscribe_resize i w =
     (if o_responsive (options (instances w i))
      then w\<lparr>resize_handlers := resize_handlers w @ [i]\<rparr> else w)"

definition run_callback :: "inst_id \<Rightarrow> world \<Rightarrow> world" where
  "run_callback i w =
     (case o_callback (options (instances w i)) of
        None \<Rightarrow> w
      | Some c \<Rightarrow> w\<lparr>callback_calls := callback_calls w @ [(c, i)]\<rparr>)"

definition Plugin_draw :: "inst_id \<Rightarrow> world \<Rightarrow> world result" where
  "Plugin_draw i w =
     (if \<not> google_defined w then Inl (ReferenceError, w)
      else (case each (Plugin_insertPoint i) (o_points (options (instances w i)))
                   (call_map (next_map w) (SetOptions (o_options (options (instances w i))))
                      (new_map i w)) of
              Inl x \<Rightarrow> Inl x
            | Inr w1 \<Rightarrow>
                (case Plugin_zoom i w1 of
                   Inl x \<Rightarrow> Inl x
                 | Inr w2 \<Rightarrow> Inr (run_callback i (subscribe_resize i w2)))))"

subsection \<open>load, init and the constructor\<close>

definition key_string :: "string option \<Rightarrow> string" where
  "key_string k = (case k of None \<Rightarrow> ''false'' | Some s \<Rightarrow> s)"

definition script_url :: "string option \<Rightarrow> string" where
  "script_url k = ''//maps.googleapis.com/maps/api/js'' @ ''?v=3.31'' @
     ''&callback=googleMapsInit'' @ ''&key='' @ key_string k"

text \<open>The list \<open>window.googleMaps\<close>, empty when the variable is undefined.\<close>

definition pending :: "world \<Rightarrow> inst_id list" where
  "pending w = (case window_googleMaps w of None \<Rightarrow> [] | Some q \<Rightarrow> q)"

definition enqueue :: "inst_id \<Rightarrow> world \<Rightarrow> world" where
  "enqueue i w = w\<lparr>window_googleMaps := Some (pending w @ [i])\<rparr>"

definition Plugin_load :: "inst_id \<Rightarrow> world \<Rightarrow> world result" where
  "Plugin_load i w =
     (if google_defined w then Plugin_draw i (w\<lparr>Plugin_loaded := True\<rparr>)
      else if Plugin_loaded (enqueue i w) then Inr (enqueue i w)
      else Inr ((enqueue i w)\<lparr>
             script_requests := script_requests w @ [script_url (o_key (options (instances w i)))],
             Plugin_loaded := True\<rparr>))"

text \<open>\<open>init()\<close> saves the style attribute and the inner HTML of the element, then loads.\<close>

definition save_element :: "inst_id \<Rightarrow> world \<Rightarrow> world" where
  "save_element i w =
     upd_inst i (\<lambda>p. p\<lparr>styles := el_style (elements w (element p)),
                        content := Some (el_html (elements w (element p)))\<rparr>) w"

definition Plugin_init :: "inst_id \<Rightarrow> world \<Rightarrow> world result" where
  "Plugin_init i w = Plugin_load i (save_element i w)"

text \<open>\<open>new Plugin(element, options)\<close>: a fresh object with the fields of lines 37 to 42,
  then \<open>init()\<close>.\<close>

definition alloc_Plugin :: "elem_id \<Rightarrow> arg \<Rightarrow> world \<Rightarrow> world" where
  "alloc_Plugin e a w =
     w\<lparr>instances := (instances w)(next_inst w :=
          \<lparr>element = e, options = extend_defaults a, centered = False,
           zoomed = False, styles = None, content = None, gmap = None,
           bounds = None\<rparr>),
       next_inst := Suc (next_inst w)\<rparr>"

definition new_Plugin :: "elem_id \<Rightarrow> arg \<Rightarrow> world \<Rightarrow> (inst_id \<times> world) result" where
  "new_Plugin e a w =
     (case Plugin_init (next_inst w) (alloc_Plugin e a w) of
        Inl x \<Rightarrow> Inl x
      | Inr w' \<Rightarrow> Inr (next_inst w, w'))"

subsection \<open>remove and destroy\<close>

text \<open>
  The setters of jQuery that \<open>remove()\<close> calls. jQuery is not part of the plugin file;
  its \<open>html(value)\<close> and \<open>attr(name, value)\<close> go through jQuery's \<open>access\<close> helper,
  which writes only when \<open>value !== undefined\<close>. The getter \<open>attr('style')\<close> gives
  \<open>undefined\<close> for an element without a style attribute, here \<open>None\<close>. \<open>html(value)\<close>
  hands the string to the browser, which parses it: what the element holds afterwards,
  as \<open>html()\<close> reads it, is \<open>html_reparse\<close> of the string. The style attribute is stored as
  it is written.
\<close>

definition jq_html_set :: "elem_id \<Rightarrow> string option \<Rightarrow> world \<Rightarrow> world" where
  "jq_html_set e v w =
     (case v of
        None \<Rightarrow> w
      | Some s \<Rightarrow> upd_elem e (\<lambda>x. x\<lparr>el_html := html_reparse w s\<rparr>) w)"

definition jq_attr_style_set :: "elem_id \<Rightarrow> string option \<Rightarrow> world \<Rightarrow> world" where
  "jq_attr_style_set e v w =
     (case v of None \<Rightarrow> w | Some s \<Rightarrow> upd_elem e (\<lambda>x. x\<lparr>el_style := Some s\<rparr>) w)"

definition Plugin_remove :: "inst_id \<Rightarrow> world \<Rightarrow> world" where
  "Plugin_remove i w =
     jq_attr_style_set (element (instances w i)) (styles (instances w i))
       (jq_html_set (element (instances w i)) (content (instances w i)) w)"

definition Plugin_destroy :: "inst_id \<Rightarrow> world \<Rightarrow> world" where
  "Plugin_destroy i w =
     upd_elem (element (instances w i)) (\<lambda>x. x\<lparr>el_data := None\<rparr>) (Plugin_remove i w)"

subsection \<open>The jQuery method\<close>

text \<open>
  The receiver of \<open>$.fn.googleMaps\<close> is a jQuery collection: its elements, and, because
  the source reads them, its own property \<open>options\<close> and the data stored on the
  collection object itself under the plugin name. \<open>jQuery es\<close> is the collection that
  \<open>$(...)\<close> builds: it has neither.
\<close>

record jq =
  elems :: "elem_id list"
  jq_options :: jsval
  jq_data :: "inst_id option"

definition jQuery :: "elem_id list \<Rightarrow> jq" where
  "jQuery es = \<lparr>elems = es, jq_options = JUndefined, jq_data = None\<rparr>"

datatype ret =
    RetInstance "inst_id option"
  | RetInstances "inst_id option list"
  | RetCollection jq

definition command :: "string \<Rightarrow> inst_id \<Rightarrow> world \<Rightarrow> world result" where
  "command s i w =
     (if s = ''redraw'' then Plugin_draw i w
      else if s = ''remove'' then Inr (Plugin_remove i w)
      else if s = ''destroy'' then Inr (Plugin_destroy i w)
      else Inr w)"

text \<open>The body of the second \<open>each\<close> (lines 318 to 346), for one element.\<close>

definition element_step :: "elem_id \<Rightarrow> arg \<Rightarrow> world \<Rightarrow> world result" where
  "element_step e a w =
     (case a of
        ArgString s \<Rightarrow>
          (case el_data (elements w e) of
             None \<Rightarrow> Inr w
           | Some i \<Rightarrow> command s i w)
      | _ \<Rightarrow>
          (case el_data (elements w e) of
             None \<Rightarrow>
               (case new_Plugin e a w of
                  Inl x \<Rightarrow> Inl x
                | Inr (i, w') \<Rightarrow> Inr (upd_elem e (\<lambda>x. x\<lparr>el_data := Some i\<rparr>) w'))
           | Some i \<Rightarrow> Inr w))"

definition fn_googleMaps :: "jq \<Rightarrow> arg \<Rightarrow> world \<Rightarrow> (ret \<times> world) result" where
  "fn_googleMaps q a w =
     (if jq_options q = JStr ''instance''
      then (if length (replicate (length (elems q)) (jq_data q)) = 1
            then Inr (RetInstance (jq_data q), w)
            else Inr (RetInstances (replicate (length (elems q)) (jq_data q)), w))
      else (case each (\<lambda>e. element_step e a) (elems q) w of
              Inl x \<Rightarrow> Inl x
            | Inr w' \<Rightarrow> Inr (RetCollection q, w')))"

subsection \<open>The completion callback and the resize event\<close>

definition googleMapsInit :: "world \<Rightarrow> world result" where
  "googleMapsInit w =
     (case window_googleMaps w of
        None \<Rightarrow> Inr w
      | Some q \<Rightarrow> each Plugin_draw q w)"

text \<open>\<open>$(window).trigger(resizeEvent)\<close>: every handler that a responsive \<open>draw()\<close>
  subscribed runs \<open>zoom()\<close> on the instance it captured.\<close>

definition trigger_resizeEvent :: "world \<Rightarrow> world result" where
  "trigger_resizeEvent w = each Plugin_zoom (resize_handlers w) w"

text \<open>The handler of the native \<open>resize\<close> event: \<open>clearTimeout(resizeTimer)\<close>, then a
  new timer. The variable starts as \<open>false\<close>, which clears nothing.\<close>

definition window_resize :: "world \<Rightarrow> world" where
  "window_resize w =
     w\<lparr>live_timers :=
         (case resizeTimer w of None \<Rightarrow> live_timers w
          | Some t \<Rightarrow> removeAll t (live_timers w)) @ [next_timer w],
       resizeTimer := Some (next_timer w),
       next_timer := Suc (next_timer w)\<rparr>"

definition timer_fire :: "nat \<Rightarrow> world \<Rightarrow> world result" where
  "timer_fire t w =
     (if t \<in> set (live_timers w)
      then trigger_resizeEvent (w\<lparr>live_timers := removeAll t (live_timers w)\<rparr>)
      else Inr w)"

subsection \<open>What happens to a page\<close>

text \<open>
  The events that reach the plugin: a call of the jQuery method, the Maps API becoming
  available, the completion callback, a \<open>bounds_changed\<close> notification of a map, a
  native resize, a timer that fires, and a write to an element by something else (the
  Maps API renders into the element it was given). An uncaught exception ends the
  event; the world keeps what was written before it.
\<close>

datatype event =
    Call jq arg
  | GoogleDefined
  | GoogleMapsInit
  | BoundsChanged map_id
  | WindowResize
  | TimerFire nat
  | DomWrite elem_id "string option" string

fun step :: "event \<Rightarrow> world \<Rightarrow> world" where
  "step (Call q a) w =
     (case fn_googleMaps q a w of Inl (e, w') \<Rightarrow> w' | Inr (r, w') \<Rightarrow> w')"
| "step GoogleDefined w = w\<lparr>google_defined := True\<rparr>"
| "step GoogleMapsInit w = world_of (googleMapsInit w)"
| "step (BoundsChanged m) w = world_of (bounds_changed m w)"
| "step WindowResize w = window_resize w"
| "step (TimerFire t) w = world_of (timer_fire t w)"
| "step (DomWrite e s h) w = upd_elem e (\<lambda>x. x\<lparr>el_style := s, el_html := h\<rparr>) w"

fun run :: "event list \<Rightarrow> world \<Rightarrow> world" where
  "run [] w = w"
| "run (ev # evs) w = run evs (step ev w)"

text \<open>A page before the plugin has run: no instance, no map, nothing requested. The
  Maps API may be there already (\<open>g\<close>), when the page loads it by itself. The page gives
  the style attribute and the inner HTML of every element, and the browser's
  \<open>html_reparse\<close>.\<close>

record web_page =
  page_elems :: "elem_id \<Rightarrow> string option \<times> string"
  page_reparse :: "string \<Rightarrow> string"

definition blank_plugin :: plugin where
  "blank_plugin = \<lparr>element = 0, options = defaults, centered = False, zoomed = False,
     styles = None, content = None, gmap = None, bounds = None\<rparr>"

definition blank_map :: gmap_obj where
  "blank_map = \<lparr>m_element = 0, m_calls = [], m_listeners = []\<rparr>"

definition init_world :: "bool \<Rightarrow> web_page \<Rightarrow> world" where
  "init_world g page =
     \<lparr>google_defined = g, Plugin_loaded = False, window_googleMaps = None,
      script_requests = [], instances = (\<lambda>i. blank_plugin), next_inst = 0,
      elements = (\<lambda>e. \<lparr>el_style = fst (page_elems page e), el_html = snd (page_elems page e),
                       el_data = None\<rparr>),
      gmaps = (\<lambda>m. blank_map), next_map = 0, markers = [], resize_handlers = [],
      callback_calls = [], resizeTimer = None, live_timers = [], next_timer = 0,
      html_reparse = page_reparse page\<rparr>"

text \<open>A page whose elements have no style attribute and no content. The markup of the
  example pages is in the form in which the browser serialises it, so the browser gives
  it back unchanged.\<close>

definition empty_page :: web_page where
  "empty_page = \<lparr>page_elems = (\<lambda>e. (None, [])), page_reparse = (\<lambda>s. s)\<rparr>"

subsection \<open>Observations and invariants\<close>

fun is_FitBounds :: "api_call \<Rightarrow> bool" where
  "is_FitBounds (FitBounds b) = True"
| "is_FitBounds _ = False"

fun is_SetCenter :: "api_call \<Rightarrow> bool" where
  "is_SetCenter (SetCenter l) = True"
| "is_SetCenter _ = False"

fun is_SetZoom :: "api_call \<Rightarrow> bool" where
  "is_SetZoom (SetZoom z) = True"
| "is_SetZoom _ = False"

text \<open>How many of the calls that a map has received satisfy \<open>p\<close>; how many times it has
  received \<open>fitBounds\<close>, \<open>setCenter\<close>, \<open>setZoom\<close>.\<close>

definition calls_of :: "(api_call \<Rightarrow> bool) \<Rightarrow> map_id \<Rightarrow> world \<Rightarrow> nat" where
  "calls_of p m w = length (filter p (m_calls (gmaps w m)))"

definition fit_calls :: "map_id \<Rightarrow> world \<Rightarrow> nat" where
  "fit_calls m w = length (filter is_FitBounds (m_calls (gmaps w m)))"

definition center_calls :: "map_id \<Rightarrow> world \<Rightarrow> nat" where
  "center_calls m w = length (filter is_SetCenter (m_calls (gmaps w m)))"

definition zoom_calls :: "map_id \<Rightarrow> world \<Rightarrow> nat" where
  "zoom_calls m w = length (filter is_SetZoom (m_calls (gmaps w m)))"

text \<open>The test of \<open>zoom()\<close> on the center option, and the calls that \<open>zoom()\<close> makes
  after \<open>fitBounds\<close>.\<close>

definition has_center :: "map_options \<Rightarrow> bool" where
  "has_center opts =
     (case o_center opts of
        None \<Rightarrow> False
      | Some loc \<Rightarrow> fst loc \<noteq> JUndefined \<and> snd loc \<noteq> JUndefined)"

definition center_zoom_calls :: "map_options \<Rightarrow> api_call list" where
  "center_zoom_calls opts =
     (case o_center opts of
        None \<Rightarrow> []
      | Some loc \<Rightarrow> if fst loc \<noteq> JUndefined \<and> snd loc \<noteq> JUndefined then [SetCenter loc] else []) @
     (if truthy (o_zoom opts) then [SetZoom (o_zoom opts)] else [])"

text \<open>The script has been requested at most once, and \<open>Plugin.loaded\<close> is set only
  when the API is there or the request has been made.\<close>

definition loader_inv :: "world \<Rightarrow> bool" where
  "loader_inv w \<longleftrightarrow>
     length (script_requests w) \<le> 1 \<and>
     (script_requests w \<noteq> [] \<longrightarrow> Plugin_loaded w) \<and>
     (Plugin_loaded w \<longrightarrow> google_defined w \<or> length (script_requests w) = 1)"





text \<open>Every instance that something refers to exists, and an instance subscribed to
  the resize event has a map.\<close>

definition refs_ok :: "world \<Rightarrow> bool" where
  "refs_ok w \<longleftrightarrow>
     (\<forall>j \<in> set (resize_handlers w). j < next_inst w \<and> gmap (instances w j) \<noteq> None) \<and>
     (\<forall>e j. el_data (elements w e) = Some j \<longrightarrow> j < next_inst w) \<and>
     (\<forall>j \<in> set (pending w). j < next_inst w)"

text \<open>\<open>$(element).googleMaps(options)\<close> on one element.\<close>

definition construct :: "elem_id \<times> map_options \<Rightarrow> event" where
  "construct c = Call (jQuery [fst c]) (ArgOptions (snd c))"

subsection \<open>Example inputs\<close>

text \<open>Points: one with latitude zero, and \<open>{lat: 10, lng: 20, marker: true, title: "A"}\<close>.\<close>

definition zero_lat_point :: point where
  "zero_lat_point = \<lparr>p_lat = JNum 0, p_lng = JNum 20, p_marker = JBool True,
     p_title = JStr ''A'', p_infoWindow = JUndefined\<rparr>"

definition titled_point :: point where
  "titled_point = \<lparr>p_lat = JNum 10, p_lng = JNum 20, p_marker = JBool True,
     p_title = JStr ''A'', p_infoWindow = JUndefined\<rparr>"

text \<open>Options: \<open>{zoom: 5}\<close>, a center with a zoom, \<open>{responsive: true}\<close>, and one point.\<close>

definition zoom5 :: map_options where
  "zoom5 = defaults\<lparr>o_zoom := JNum 5\<rparr>"

definition center_zoom :: map_options where
  "center_zoom = defaults\<lparr>o_center := Some (JNum 1, JNum 2), o_zoom := JNum 5\<rparr>"

definition responsive_map :: map_options where
  "responsive_map = defaults\<lparr>o_responsive := True\<rparr>"

definition one_point :: map_options where
  "one_point = defaults\<lparr>o_points := [titled_point]\<rparr>"

text \<open>A page whose elements have no style attribute and the content
  \<open><p>loading</p>\<close>.\<close>

definition plain_page :: web_page where
  "plain_page = \<lparr>page_elems = (\<lambda>e. (None, ''<p>loading</p>'')), page_reparse = (\<lambda>s. s)\<rparr>"

text \<open>A page with the Maps API loaded and one map drawn on element 0 with the default
  options.\<close>

definition drawn_world :: world where
  "drawn_world = step (Call (jQuery [0]) ArgUndefined) (init_world True empty_page)"

text \<open>A map with a center and a zoom, drawn, whose map has fired \<open>bounds_changed\<close>
  once.\<close>

definition flipped_world :: world where
  "flipped_world =
     run [construct (0, center_zoom), BoundsChanged 0] (init_world True empty_page)"

text \<open>Two instances constructed while the API is missing.\<close>

definition queued_world :: world where
  "queued_world = run [construct (0, defaults), construct (1, zoom5)] (init_world False empty_page)"

text \<open>A map drawn on an element without a style attribute, after the Maps API has
  rendered into the element.\<close>

definition rendered_world :: world where
  "rendered_world =
     run [construct (0, defaults),
          DomWrite 0 (Some ''position: relative; overflow: hidden;'') ''<div>map</div>'']
       (init_world True plain_page)"

text \<open>A responsive instance constructed while the API is missing.\<close>

definition responsive_world :: world where
  "responsive_world = run [construct (0, responsive_map)] (init_world False empty_page)"

section \<open>Properties\<close>

subsection \<open>Loops and the shape of each method's effect\<close>

lemmas store_defs = upd_inst_def upd_elem_def call_map_def addListener_def

text \<open>Every definition of the model, to run it on a concrete page.\<close>

lemmas eval_defs = construct_def jQuery_def fn_googleMaps_def element_step_def command_def
  new_Plugin_def alloc_Plugin_def Plugin_init_def save_element_def Plugin_load_def
  Plugin_draw_def Plugin_zoom_def
  zoom_zoom_def zoom_center_def new_map_def subscribe_resize_def run_callback_def
  Plugin_insertPoint_def point_defaults_def new_marker_def bounds_changed_def
  Plugin_remove_def Plugin_destroy_def jq_html_set_def jq_attr_style_set_def
  googleMapsInit_def trigger_resizeEvent_def window_resize_def timer_fire_def
  enqueue_def pending_def script_url_def key_string_def
  upd_inst_def upd_elem_def call_map_def addListener_def
  init_world_def empty_page_def defaults_def blank_plugin_def blank_map_def

lemma each_preserves:
  assumes "\<And>x w. x \<in> set xs \<Longrightarrow> P w \<Longrightarrow> P (world_of (f x w))" and "P w"
  shows "P (world_of (each f xs w))"
  using assms
proof (induction xs arbitrary: w)
  case Nil
  then show ?case by simp
next
  case (Cons x xs)
  have px: "P (world_of (f x w))" using Cons.prems by simp
  show ?case
  proof (cases "f x w")
    case (Inl err)
    with px show ?thesis by (cases err) simp
  next
    case (Inr w')
    with px have "P w'" by simp
    then have "P (world_of (each f xs w'))"
      using Cons.IH Cons.prems(1) by simp
    with Inr show ?thesis by simp
  qed
qed

lemma each_returns:
  assumes "\<And>x w. x \<in> set xs \<Longrightarrow> P w \<Longrightarrow> \<exists>w'. f x w = Inr w' \<and> P w'" and "P w"
  shows "\<exists>w'. each f xs w = Inr w' \<and> P w'"
  using assms
proof (induction xs arbitrary: w)
  case Nil
  then show ?case by simp
next
  case (Cons x xs)
  from Cons.prems obtain w1 where w1: "f x w = Inr w1" "P w1" by fastforce
  have "\<exists>w'. each f xs w1 = Inr w' \<and> P w'"
    using Cons.IH [of w1] Cons.prems(1) w1(2) by simp
  with w1 show ?case by simp
qed

lemma insertPoint_shape:
  "\<exists>b mk. world_of (Plugin_insertPoint i raw w) =
     w\<lparr>instances := (instances w)(i := (instances w i)\<lparr>bounds := b\<rparr>), markers := mk\<rparr>"
proof (cases "Plugin_insertPoint i raw w = Inr w \<or> (\<exists>e. Plugin_insertPoint i raw w = Inl (e, w))")
  case True
  then have "world_of (Plugin_insertPoint i raw w) =
     w\<lparr>instances := (instances w)(i := (instances w i)\<lparr>bounds := bounds (instances w i)\<rparr>),
       markers := markers w\<rparr>"
    by auto
  then show ?thesis by blast
next
  case False
  show ?thesis
    apply (rule exI [of _ "bounds (instances (world_of (Plugin_insertPoint i raw w)) i)"])
    apply (rule exI [of _ "markers (world_of (Plugin_insertPoint i raw w))"])
    using False
    apply (auto simp: Plugin_insertPoint_def Let_def upd_inst_def split: option.splits if_splits)
    done
qed

lemma insertPoint_returns:
  assumes "google_defined w" and "bounds (instances w i) \<noteq> None"
  shows "\<exists>w'. Plugin_insertPoint i raw w = Inr w' \<and> google_defined w' \<and> bounds (instances w' i) \<noteq> None"
  using assms
  by (auto simp: Plugin_insertPoint_def Let_def upd_inst_def split: option.splits)


lemma each_insertPoint_shape:
  "\<exists>b mk. world_of (each (Plugin_insertPoint i) ps w) =
     w\<lparr>instances := (instances w)(i := (instances w i)\<lparr>bounds := b\<rparr>), markers := mk\<rparr>"
proof -
  let ?P = "\<lambda>w'. \<exists>b mk. w' =
     w\<lparr>instances := (instances w)(i := (instances w i)\<lparr>bounds := b\<rparr>), markers := mk\<rparr>"
  have step: "?P (world_of (Plugin_insertPoint i p w1))" if "?P w1" for p w1
  proof -
    from that obtain b mk where w1: "w1 =
      w\<lparr>instances := (instances w)(i := (instances w i)\<lparr>bounds := b\<rparr>), markers := mk\<rparr>"
      by blast
    obtain b' mk' where "world_of (Plugin_insertPoint i p w1) =
      w1\<lparr>instances := (instances w1)(i := (instances w1 i)\<lparr>bounds := b'\<rparr>), markers := mk'\<rparr>"
      using insertPoint_shape by blast
    then have "world_of (Plugin_insertPoint i p w1) =
      w\<lparr>instances := (instances w)(i := (instances w i)\<lparr>bounds := b'\<rparr>), markers := mk'\<rparr>"
      by (simp add: w1)
    then show ?thesis by blast
  qed
  have "?P w"
    by (rule exI [of _ "bounds (instances w i)"], rule exI [of _ "markers w"]) simp
  then show ?thesis
    using each_preserves [of ps ?P "Plugin_insertPoint i" w] step by blast
qed

lemma each_insertPoint_returns:
  assumes "google_defined w" and "bounds (instances w i) \<noteq> None"
  shows "\<exists>w'. each (Plugin_insertPoint i) ps w = Inr w' \<and> bounds (instances w' i) \<noteq> None"
proof -
  have "\<exists>w'. each (Plugin_insertPoint i) ps w = Inr w' \<and>
          (google_defined w' \<and> bounds (instances w' i) \<noteq> None)"
    by (rule each_returns [where P = "\<lambda>w. google_defined w \<and> bounds (instances w i) \<noteq> None"])
       (use assms insertPoint_returns in blast)+
  then show ?thesis by blast
qed


subsection \<open>zoom\<close>

lemmas zoom_defs = Plugin_zoom_def zoom_zoom_def zoom_center_def call_map_def addListener_def

lemma zoom_no_map: "gmap (instances w i) = None \<Longrightarrow> Plugin_zoom i w = Inl (TypeError, w)"
  by (simp add: Plugin_zoom_def)

lemma zoom_with_map:
  assumes "gmap (instances w i) = Some m"
  shows "\<exists>g cs. Plugin_zoom i w = Inr (w\<lparr>gmaps := (gmaps w)(m := g)\<rparr>) \<and>
           m_element g = m_element (gmaps w m) \<and>
           m_calls g = m_calls (gmaps w m) @ FitBounds (bounds (instances w i)) # cs"
  apply (rule exI [of _ "gmaps (world_of (Plugin_zoom i w)) m"])
  using assms
  apply (auto simp: zoom_defs split: option.splits)
  done

lemma zoom_shape: "\<exists>G. world_of (Plugin_zoom i w) = w\<lparr>gmaps := G\<rparr>"
proof (cases "gmap (instances w i)")
  case None
  have "w = w\<lparr>gmaps := gmaps w\<rparr>" by simp
  with None show ?thesis by (metis zoom_no_map world_of.simps(1))
next
  case (Some m)
  then show ?thesis using zoom_with_map [OF Some] by fastforce
qed

subsection \<open>draw\<close>

lemma draw_not_ready: "\<not> google_defined w \<Longrightarrow> Plugin_draw i w = Inl (ReferenceError, w)"
  by (simp add: Plugin_draw_def)

lemma draw_ready:
  assumes "google_defined w"
  shows "\<exists>b g mk. Plugin_draw i w =
     Inr (w\<lparr>instances := (instances w)(i := (instances w i)\<lparr>gmap := Some (next_map w), bounds := Some b\<rparr>),
           gmaps := (gmaps w)(next_map w := g),
           next_map := Suc (next_map w),
           markers := mk,
           resize_handlers := resize_handlers w @ (if o_responsive (options (instances w i)) then [i] else []),
           callback_calls := callback_calls w @
             (case o_callback (options (instances w i)) of None \<Rightarrow> [] | Some c \<Rightarrow> [(c, i)])\<rparr>) \<and>
     m_element g = element (instances w i)"
proof -
  define w0 where "w0 = call_map (next_map w) (SetOptions (o_options (options (instances w i)))) (new_map i w)"
  have w0: "google_defined w0" "bounds (instances w0 i) \<noteq> None"
    using assms by (simp_all add: w0_def call_map_def new_map_def upd_inst_def)
  obtain w1 where w1: "each (Plugin_insertPoint i) (o_points (options (instances w i))) w0 = Inr w1"
    and b1: "bounds (instances w1 i) \<noteq> None"
    using each_insertPoint_returns [OF w0] by blast
  obtain b0 mk where "world_of (each (Plugin_insertPoint i) (o_points (options (instances w i))) w0) =
      w0\<lparr>instances := (instances w0)(i := (instances w0 i)\<lparr>bounds := b0\<rparr>), markers := mk\<rparr>"
    using each_insertPoint_shape by blast
  with w1 have s1: "w1 = w0\<lparr>instances := (instances w0)(i := (instances w0 i)\<lparr>bounds := b0\<rparr>), markers := mk\<rparr>"
    by simp
  with b1 obtain b where b: "b0 = Some b" by auto
  have g1: "gmap (instances w1 i) = Some (next_map w)"
    by (simp add: s1 w0_def call_map_def new_map_def upd_inst_def)
  obtain g cs where z: "Plugin_zoom i w1 = Inr (w1\<lparr>gmaps := (gmaps w1)(next_map w := g)\<rparr>)"
    and ge: "m_element g = m_element (gmaps w1 (next_map w))"
    using zoom_with_map [OF g1] by blast
  have ge': "m_element g = element (instances w i)"
    by (simp add: ge s1 w0_def call_map_def new_map_def upd_inst_def)
  have "Plugin_draw i w = Inr (run_callback i (subscribe_resize i (w1\<lparr>gmaps := (gmaps w1)(next_map w := g)\<rparr>)))"
    using assms w1 z by (simp add: Plugin_draw_def w0_def)
  also have "run_callback i (subscribe_resize i (w1\<lparr>gmaps := (gmaps w1)(next_map w := g)\<rparr>)) =
     w\<lparr>instances := (instances w)(i := (instances w i)\<lparr>gmap := Some (next_map w), bounds := Some b\<rparr>),
           gmaps := (gmaps w)(next_map w := g),
           next_map := Suc (next_map w),
           markers := mk,
           resize_handlers := resize_handlers w @ (if o_responsive (options (instances w i)) then [i] else []),
           callback_calls := callback_calls w @
             (case o_callback (options (instances w i)) of None \<Rightarrow> [] | Some c \<Rightarrow> [(c, i)])\<rparr>"
    by (simp add: s1 b w0_def call_map_def new_map_def upd_inst_def run_callback_def
        subscribe_resize_def split: option.splits)
  finally show ?thesis using ge' by blast
qed

subsection \<open>The constructor\<close>

lemma new_Plugin_not_ready:
  assumes "\<not> google_defined w"
  shows "new_Plugin e a w = Inr (next_inst w,
     (if Plugin_loaded w
      then enqueue (next_inst w) (save_element (next_inst w) (alloc_Plugin e a w))
      else (enqueue (next_inst w) (save_element (next_inst w) (alloc_Plugin e a w)))\<lparr>
             script_requests := script_requests w @ [script_url (o_key (extend_defaults a))],
             Plugin_loaded := True\<rparr>))"
  using assms
  by (simp add: new_Plugin_def Plugin_init_def Plugin_load_def save_element_def
      alloc_Plugin_def enqueue_def upd_inst_def)

lemma new_Plugin_ready:
  assumes "google_defined w"
  shows "\<exists>w'. Plugin_draw (next_inst w)
                 ((save_element (next_inst w) (alloc_Plugin e a w))\<lparr>Plugin_loaded := True\<rparr>) = Inr w' \<and>
               new_Plugin e a w = Inr (next_inst w, w')"
proof -
  let ?w1 = "(save_element (next_inst w) (alloc_Plugin e a w))\<lparr>Plugin_loaded := True\<rparr>"
  have g: "google_defined ?w1"
    using assms by (simp add: save_element_def alloc_Plugin_def upd_inst_def)
  then obtain w' where d: "Plugin_draw (next_inst w) ?w1 = Inr w'"
    using draw_ready by blast
  have "google_defined (save_element (next_inst w) (alloc_Plugin e a w))"
    using g by simp
  then have "new_Plugin e a w = Inr (next_inst w, w')"
    using d by (simp add: new_Plugin_def Plugin_init_def Plugin_load_def)
  with d show ?thesis by blast
qed

subsection \<open>What an event preserves\<close>

lemma step_Call:
  "step (Call q a) w =
     (if jq_options q = JStr ''instance'' then w
      else world_of (each (\<lambda>e. element_step e a) (elems q) w))"
  by (auto simp: fn_googleMaps_def split: sum.splits prod.splits)

text \<open>
  A property \<open>Q\<close> of the world holds after every event when the methods keep it. \<open>V\<close>
  says which instances the methods are called on: those an element or the pending list
  refers to.
\<close>

lemma step_preserves:
  assumes Q: "Q w"
    and draw: "\<And>i w. Q w \<Longrightarrow> V i w \<Longrightarrow> Q (world_of (Plugin_draw i w))"
    and draw_V: "\<And>i j w. V i w \<Longrightarrow> V i (world_of (Plugin_draw j w))"
    and remove: "\<And>i w. Q w \<Longrightarrow> V i w \<Longrightarrow> Q (Plugin_remove i w)"
    and destroy: "\<And>i w. Q w \<Longrightarrow> V i w \<Longrightarrow> Q (Plugin_destroy i w)"
    and new: "\<And>e a w. Q w \<Longrightarrow> el_data (elements w e) = None \<Longrightarrow> \<forall>s. a \<noteq> ArgString s \<Longrightarrow>
                Q (world_of (element_step e a w))"
    and zoom: "\<And>i w. Q w \<Longrightarrow> Q (world_of (Plugin_zoom i w))"
    and listener: "\<And>l w. Q w \<Longrightarrow> Q (world_of (run_listener l w))"
    and timers: "\<And>w ts rt nt. Q w \<Longrightarrow> Q (w\<lparr>live_timers := ts, resizeTimer := rt, next_timer := nt\<rparr>)"
    and ready: "\<And>w. Q w \<Longrightarrow> Q (w\<lparr>google_defined := True\<rparr>)"
    and dom: "\<And>w e s h. Q w \<Longrightarrow> Q (upd_elem e (\<lambda>x. x\<lparr>el_style := s, el_html := h\<rparr>) w)"
    and V_data: "\<And>w e i. Q w \<Longrightarrow> el_data (elements w e) = Some i \<Longrightarrow> V i w"
    and V_pending: "\<And>w i. Q w \<Longrightarrow> i \<in> set (pending w) \<Longrightarrow> V i w"
  shows "Q (step ev w)"
proof (cases ev)
  case (Call q a)
  have el: "Q (world_of (element_step e a w1))" if "Q w1" for e w1
  proof (cases "\<exists>s. a = ArgString s")
    case True
    then obtain s where a: "a = ArgString s" by blast
    show ?thesis
    proof (cases "el_data (elements w1 e)")
      case None
      then show ?thesis using that by (simp add: element_step_def a)
    next
      case (Some i)
      then have "V i w1" using V_data that by blast
      then show ?thesis
        using that Some draw remove destroy by (simp add: element_step_def a command_def)
    qed
  next
    case False
    show ?thesis
    proof (cases "el_data (elements w1 e)")
      case None
      then show ?thesis using new that False by blast
    next
      case (Some i)
      then show ?thesis using that False by (cases a) (simp_all add: element_step_def)
    qed
  qed
  have "Q (world_of (each (\<lambda>e. element_step e a) (elems q) w))"
    by (rule each_preserves [where P = Q]) (use el Q in blast)+
  then show ?thesis unfolding Call step_Call using Q by simp
next
  case GoogleDefined
  then show ?thesis using ready Q by simp
next
  case GoogleMapsInit
  show ?thesis
  proof (cases "window_googleMaps w")
    case None
    then show ?thesis using Q GoogleMapsInit by (simp add: googleMapsInit_def)
  next
    case (Some q)
    let ?P = "\<lambda>w'. Q w' \<and> (\<forall>i \<in> set q. V i w')"
    have start: "?P w" using Q V_pending Some by (simp add: pending_def)
    have "?P (world_of (each Plugin_draw q w))"
      by (rule each_preserves [where P = ?P]) (use draw draw_V start in blast)+
    then show ?thesis using Some GoogleMapsInit by (simp add: googleMapsInit_def)
  qed
next
  case (BoundsChanged m)
  have "Q (world_of (each run_listener (m_listeners (gmaps w m)) w))"
    by (rule each_preserves [where P = Q]) (use listener Q in blast)+
  then show ?thesis using BoundsChanged by (simp add: bounds_changed_def)
next
  case WindowResize
  then show ?thesis using timers [OF Q] by (simp add: window_resize_def)
next
  case (TimerFire t)
  let ?w1 = "w\<lparr>live_timers := removeAll t (live_timers w)\<rparr>"
  have "?w1 = w\<lparr>live_timers := removeAll t (live_timers w), resizeTimer := resizeTimer w,
                 next_timer := next_timer w\<rparr>"
    by simp
  then have q1: "Q ?w1" using timers [OF Q] by metis
  have "Q (world_of (each Plugin_zoom (resize_handlers ?w1) ?w1))"
    by (rule each_preserves [where P = Q]) (use zoom q1 in blast)+
  then show ?thesis using TimerFire Q by (simp add: timer_fire_def trigger_resizeEvent_def)
next
  case (DomWrite e s h)
  then show ?thesis using dom Q by simp
qed


lemma run_preserves:
  assumes "Q w" and "\<And>ev w. Q w \<Longrightarrow> Q (step ev w)"
  shows "Q (run evs w)"
  using assms by (induction evs arbitrary: w) simp_all

text \<open>What \<open>draw()\<close>, \<open>zoom()\<close> and a listener leave as it was.\<close>

lemma draw_frame:
  fixes i w
  defines "w' \<equiv> world_of (Plugin_draw i w)"
  shows "google_defined w' = google_defined w" and "Plugin_loaded w' = Plugin_loaded w"
    and "window_googleMaps w' = window_googleMaps w" and "script_requests w' = script_requests w"
    and "next_inst w' = next_inst w" and "elements w' = elements w"
    and "element (instances w' j) = element (instances w j)"
    and "options (instances w' j) = options (instances w j)"
    and "styles (instances w' j) = styles (instances w j)"
    and "content (instances w' j) = content (instances w j)"
    and "j \<noteq> i \<Longrightarrow> instances w' j = instances w j"
proof -
  have "google_defined w' = google_defined w \<and> Plugin_loaded w' = Plugin_loaded w
    \<and> window_googleMaps w' = window_googleMaps w \<and> script_requests w' = script_requests w
    \<and> next_inst w' = next_inst w \<and> elements w' = elements w
    \<and> element (instances w' j) = element (instances w j)
    \<and> options (instances w' j) = options (instances w j)
    \<and> styles (instances w' j) = styles (instances w j)
    \<and> content (instances w' j) = content (instances w j)
    \<and> (j \<noteq> i \<longrightarrow> instances w' j = instances w j)"
  proof (cases "google_defined w")
    case False
    then show ?thesis by (simp add: w'_def draw_not_ready)
  next
    case True
    from draw_ready [OF True, of i] obtain b g mk where "Plugin_draw i w =
       Inr (w\<lparr>instances := (instances w)(i := (instances w i)\<lparr>gmap := Some (next_map w), bounds := Some b\<rparr>),
           gmaps := (gmaps w)(next_map w := g),
           next_map := Suc (next_map w),
           markers := mk,
           resize_handlers := resize_handlers w @ (if o_responsive (options (instances w i)) then [i] else []),
           callback_calls := callback_calls w @
             (case o_callback (options (instances w i)) of None \<Rightarrow> [] | Some c \<Rightarrow> [(c, i)])\<rparr>)"
      by blast
    then show ?thesis by (simp add: w'_def)
  qed
  then show "google_defined w' = google_defined w" and "Plugin_loaded w' = Plugin_loaded w"
    and "window_googleMaps w' = window_googleMaps w" and "script_requests w' = script_requests w"
    and "next_inst w' = next_inst w" and "elements w' = elements w"
    and "element (instances w' j) = element (instances w j)"
    and "options (instances w' j) = options (instances w j)"
    and "styles (instances w' j) = styles (instances w j)"
    and "content (instances w' j) = content (instances w j)"
    and "j \<noteq> i \<Longrightarrow> instances w' j = instances w j"
    by simp_all
qed

lemma zoom_frame:
  fixes i w
  defines "w' \<equiv> world_of (Plugin_zoom i w)"
  shows "google_defined w' = google_defined w" and "Plugin_loaded w' = Plugin_loaded w"
    and "window_googleMaps w' = window_googleMaps w" and "script_requests w' = script_requests w"
    and "next_inst w' = next_inst w" and "elements w' = elements w"
    and "instances w' = instances w" and "next_map w' = next_map w"
    and "resize_handlers w' = resize_handlers w"
proof -
  obtain G where "w' = w\<lparr>gmaps := G\<rparr>"
    using zoom_shape [of i w] by (auto simp: w'_def)
  then show "google_defined w' = google_defined w" and "Plugin_loaded w' = Plugin_loaded w"
    and "window_googleMaps w' = window_googleMaps w" and "script_requests w' = script_requests w"
    and "next_inst w' = next_inst w" and "elements w' = elements w"
    and "instances w' = instances w" and "next_map w' = next_map w"
    and "resize_handlers w' = resize_handlers w"
    by simp_all
qed

lemma listener_frame:
  fixes l w
  defines "w' \<equiv> world_of (run_listener l w)"
  shows "google_defined w' = google_defined w" and "Plugin_loaded w' = Plugin_loaded w"
    and "window_googleMaps w' = window_googleMaps w" and "script_requests w' = script_requests w"
    and "next_inst w' = next_inst w" and "elements w' = elements w"
    and "next_map w' = next_map w" and "resize_handlers w' = resize_handlers w"
    and "gmap (instances w' j) = gmap (instances w j)"
    and "element (instances w' j) = element (instances w j)"
    and "styles (instances w' j) = styles (instances w j)"
    and "content (instances w' j) = content (instances w j)"
  unfolding w'_def
  by (cases l; auto simp: store_defs split: option.splits)+

lemma remove_frame:
  fixes i w
  defines "w' \<equiv> Plugin_remove i w"
  shows "google_defined w' = google_defined w" and "Plugin_loaded w' = Plugin_loaded w"
    and "window_googleMaps w' = window_googleMaps w" and "script_requests w' = script_requests w"
    and "next_inst w' = next_inst w" and "instances w' = instances w"
    and "next_map w' = next_map w" and "resize_handlers w' = resize_handlers w"
    and "gmaps w' = gmaps w"
    and "el_data (elements w' e) = el_data (elements w e)"
  unfolding w'_def
  by (auto simp: Plugin_remove_def jq_html_set_def jq_attr_style_set_def upd_elem_def
      split: option.splits)

lemma destroy_frame:
  fixes i w
  defines "w' \<equiv> Plugin_destroy i w"
  shows "google_defined w' = google_defined w" and "Plugin_loaded w' = Plugin_loaded w"
    and "window_googleMaps w' = window_googleMaps w" and "script_requests w' = script_requests w"
    and "next_inst w' = next_inst w" and "instances w' = instances w"
    and "next_map w' = next_map w" and "resize_handlers w' = resize_handlers w"
    and "gmaps w' = gmaps w"
    and "el_data (elements w' e) = (if e = element (instances w i) then None else el_data (elements w e))"
  unfolding w'_def
  by (auto simp: Plugin_destroy_def Plugin_remove_def jq_html_set_def jq_attr_style_set_def
      upd_elem_def split: option.splits)

text \<open>No method changes what the browser makes of markup.\<close>

lemma reparse_frame:
  "html_reparse (world_of (Plugin_draw i w)) = html_reparse w"
  "html_reparse (world_of (Plugin_zoom i w)) = html_reparse w"
  "html_reparse (world_of (run_listener l w)) = html_reparse w"
  "html_reparse (Plugin_remove i w) = html_reparse w"
  "html_reparse (Plugin_destroy i w) = html_reparse w"
proof -
  show "html_reparse (world_of (Plugin_draw i w)) = html_reparse w"
  proof (cases "google_defined w")
    case False
    then show ?thesis by (simp add: draw_not_ready)
  next
    case True
    from draw_ready [OF True, of i] obtain w' where "Plugin_draw i w = Inr w'"
      and "html_reparse w' = html_reparse w"
      by auto
    then show ?thesis by simp
  qed
  obtain G where "world_of (Plugin_zoom i w) = w\<lparr>gmaps := G\<rparr>"
    using zoom_shape [of i w] by blast
  then show "html_reparse (world_of (Plugin_zoom i w)) = html_reparse w" by simp
  show "html_reparse (world_of (run_listener l w)) = html_reparse w"
    by (cases l; auto simp: store_defs split: option.splits)
  show "html_reparse (Plugin_remove i w) = html_reparse w"
    by (auto simp: Plugin_remove_def jq_html_set_def jq_attr_style_set_def upd_elem_def
        split: option.splits)
  then show "html_reparse (Plugin_destroy i w) = html_reparse w"
    by (simp add: Plugin_destroy_def upd_elem_def)
qed

subsection \<open>The guard flags\<close>

text \<open>
  C1 fails on the code. \<open>draw()\<close> does not write the two guard flags; only the
  constructor sets them to false. In the first draw cycle the listeners apply the center
  and the zoom again at the first notification. On a redraw \<open>zoom()\<close> registers the two
  listeners again, on the new map, but both flags are still true when \<open>draw()\<close> is done,
  so the notification that follows the redraw applies neither the center nor the zoom
  again: the new map has received them from \<open>zoom()\<close> only.
\<close>

theorem redraw_keeps_guard_flags:
  "m_calls (gmaps flipped_world 0) =
     [SetOptions [], FitBounds (Some []), SetCenter (JNum 1, JNum 2), SetZoom (JNum 5),
      SetCenter (JNum 1, JNum 2), SetZoom (JNum 5)] \<and>
   centered (instances (world_of (Plugin_draw 0 flipped_world)) 0) \<and>
   zoomed (instances (world_of (Plugin_draw 0 flipped_world)) 0) \<and>
   m_listeners (gmaps (world_of (Plugin_draw 0 flipped_world)) 1) =
     [CenterListener 0 (JNum 1, JNum 2), ZoomListener 0 (JNum 5)] \<and>
   m_calls (gmaps (run [Call (jQuery [0]) (ArgString ''redraw''), BoundsChanged 1] flipped_world) 1) =
     [SetOptions [], FitBounds (Some []), SetCenter (JNum 1, JNum 2), SetZoom (JNum 5)]"
  by (simp add: flipped_world_def eval_defs center_zoom_def)

subsection \<open>insertPoint\<close>

lemma truthy_or_false [simp]: "truthy (or_false v) = truthy v"
  by (simp add: or_false_def)

lemma or_false_truthy: "truthy v \<Longrightarrow> or_false v = v"
  by (auto simp: or_false_def)

text \<open>
  C7. A point whose \<open>lat\<close> or \<open>lng\<close> is falsy (zero, missing, \<open>false\<close>, and also
  \<open>null\<close>, \<open>NaN\<close> or the empty string) makes \<open>insertPoint\<close> return normally with the
  whole world as it was: the bounds, the markers and everything else.
\<close>

theorem insertPoint_falsy_no_effect:
  "\<not> truthy (p_lat raw) \<or> \<not> truthy (p_lng raw) \<Longrightarrow> Plugin_insertPoint i raw w = Inr w"
  by (auto simp: Plugin_insertPoint_def point_defaults_def)

theorem insertPoint_falsy_no_effect_witness:
  "\<not> truthy (p_lat zero_lat_point) \<and>
   Plugin_insertPoint 0 zero_lat_point drawn_world = Inr drawn_world"
  using insertPoint_falsy_no_effect [of zero_lat_point 0 drawn_world]
  by (simp add: zero_lat_point_def)

text \<open>
  C8. A point with truthy \<open>lat\<close> and \<open>lng\<close>, inserted into an instance that has its bounds
  accumulator (as it has inside \<open>draw()\<close>, with the API loaded), extends the accumulator by
  the location \<open>(lat, lng)\<close>: the new bounds hold every location the old ones held, and
  the new one. Nothing is asked of \<open>marker\<close>: the extension happens with or without it.
\<close>

theorem insertPoint_extends_bounds:
  assumes "truthy (p_lat raw)" and "truthy (p_lng raw)"
    and "google_defined w" and "bounds (instances w i) = Some b"
  shows "\<exists>w' b'. Plugin_insertPoint i raw w = Inr w' \<and> bounds (instances w' i) = Some b' \<and>
           b' = b @ [(p_lat raw, p_lng raw)] \<and> set b \<subseteq> set b' \<and> (p_lat raw, p_lng raw) \<in> set b'"
  using assms
  by (auto simp: Plugin_insertPoint_def point_defaults_def Let_def upd_inst_def or_false_truthy)

theorem insertPoint_extends_bounds_witness:
  "truthy (p_lat titled_point) \<and> truthy (p_lng titled_point) \<and> google_defined drawn_world \<and>
   bounds (instances drawn_world 0) = Some [] \<and>
   (\<exists>w' b'. Plugin_insertPoint 0 (titled_point\<lparr>p_marker := JBool False\<rparr>) drawn_world = Inr w' \<and>
      bounds (instances w' 0) = Some b' \<and> b' = [] @ [(JNum 10, JNum 20)] \<and> set [] \<subseteq> set b' \<and>
      (JNum 10, JNum 20) \<in> set b')"
proof -
  have h: "truthy (p_lat (titled_point\<lparr>p_marker := JBool False\<rparr>))"
    "truthy (p_lng (titled_point\<lparr>p_marker := JBool False\<rparr>))"
    "google_defined drawn_world" "bounds (instances drawn_world 0) = Some []"
    by (simp_all add: titled_point_def drawn_world_def eval_defs)
  from insertPoint_extends_bounds [OF h] h show ?thesis
    by (simp add: titled_point_def)
qed

subsection \<open>The instance argument\<close>

lemma each_element_instance:
  "each (\<lambda>e. element_step e (ArgString ''instance'')) es w = Inr w"
  by (induction es) (auto simp: element_step_def command_def split: option.splits)

text \<open>
  C6 fails on the code. The method tests the property \<open>options\<close> of the collection, not
  its argument, so a call with the argument \<open>'instance'\<close> on a collection built by
  \<open>$(...)\<close> does not enter the retrieval branch: the argument is taken for a command that
  is not known, nothing happens, and the collection itself comes back, for one element as
  for several, whatever instances the elements hold.
\<close>

theorem instance_argument_returns_collection:
  "fn_googleMaps (jQuery es) (ArgString ''instance'') w = Inr (RetCollection (jQuery es), w)"
  by (simp add: fn_googleMaps_def jQuery_def each_element_instance)

theorem instance_argument_returns_collection_witness:
  "el_data (elements drawn_world 0) = Some 0 \<and>
   fn_googleMaps (jQuery [0]) (ArgString ''instance'') drawn_world =
     Inr (RetCollection (jQuery [0]), drawn_world) \<and>
   fn_googleMaps (jQuery [0]) (ArgString ''instance'') drawn_world \<noteq>
     Inr (RetInstance (Some 0), drawn_world)"
  using instance_argument_returns_collection [of "[0]" drawn_world]
  by (simp add: drawn_world_def eval_defs)

subsection \<open>Constructing on an element\<close>

lemma construct_step_not_ready:
  assumes "\<not> google_defined w" and "el_data (elements w e) = None" and "\<forall>s. a \<noteq> ArgString s"
  shows "element_step e a w = Inr (upd_elem e (\<lambda>x. x\<lparr>el_data := Some (next_inst w)\<rparr>)
     (if Plugin_loaded w
      then enqueue (next_inst w) (save_element (next_inst w) (alloc_Plugin e a w))
      else (enqueue (next_inst w) (save_element (next_inst w) (alloc_Plugin e a w)))\<lparr>
             script_requests := script_requests w @ [script_url (o_key (extend_defaults a))],
             Plugin_loaded := True\<rparr>))"
  using assms new_Plugin_not_ready [OF assms(1), of e a]
  by (cases a) (simp_all add: element_step_def)

lemma construct_step_ready:
  assumes "google_defined w" and "el_data (elements w e) = None" and "\<forall>s. a \<noteq> ArgString s"
  shows "\<exists>w'. Plugin_draw (next_inst w)
                 ((save_element (next_inst w) (alloc_Plugin e a w))\<lparr>Plugin_loaded := True\<rparr>) = Inr w' \<and>
               element_step e a w = Inr (upd_elem e (\<lambda>x. x\<lparr>el_data := Some (next_inst w)\<rparr>) w')"
proof -
  from new_Plugin_ready [OF assms(1), of e a] obtain w'
    where d: "Plugin_draw (next_inst w)
                 ((save_element (next_inst w) (alloc_Plugin e a w))\<lparr>Plugin_loaded := True\<rparr>) = Inr w'"
      and n: "new_Plugin e a w = Inr (next_inst w, w')"
    by blast
  have "element_step e a w = Inr (upd_elem e (\<lambda>x. x\<lparr>el_data := Some (next_inst w)\<rparr>) w')"
    using assms n by (cases a) (simp_all add: element_step_def)
  with d show ?thesis by blast
qed

lemmas alloc_defs = save_element_def alloc_Plugin_def enqueue_def upd_inst_def upd_elem_def

subsection \<open>The script request\<close>

lemma loader_step:
  assumes "loader_inv w \<and> (c \<longrightarrow> script_requests w \<noteq> [])"
  shows "loader_inv (step ev w) \<and> (c \<longrightarrow> script_requests (step ev w) \<noteq> [])"
proof (rule step_preserves [where Q = "\<lambda>w. loader_inv w \<and> (c \<longrightarrow> script_requests w \<noteq> [])"
        and V = "\<lambda>i w. True"])
  show "loader_inv w \<and> (c \<longrightarrow> script_requests w \<noteq> [])" by (rule assms)
next
  fix i w assume "loader_inv w \<and> (c \<longrightarrow> script_requests w \<noteq> [])"
  then show "loader_inv (world_of (Plugin_draw i w)) \<and> (c \<longrightarrow> script_requests (world_of (Plugin_draw i w)) \<noteq> [])"
    by (simp add: loader_inv_def draw_frame)
next
  fix i w assume "loader_inv w \<and> (c \<longrightarrow> script_requests w \<noteq> [])"
  then show "loader_inv (Plugin_remove i w) \<and> (c \<longrightarrow> script_requests (Plugin_remove i w) \<noteq> [])"
    by (simp add: loader_inv_def remove_frame)
next
  fix i w assume "loader_inv w \<and> (c \<longrightarrow> script_requests w \<noteq> [])"
  then show "loader_inv (Plugin_destroy i w) \<and> (c \<longrightarrow> script_requests (Plugin_destroy i w) \<noteq> [])"
    by (simp add: loader_inv_def destroy_frame)
next
  fix e a w
  assume q: "loader_inv w \<and> (c \<longrightarrow> script_requests w \<noteq> [])"
    and e: "el_data (elements w e) = None" and a: "\<forall>s. a \<noteq> ArgString s"
  show "loader_inv (world_of (element_step e a w)) \<and>
        (c \<longrightarrow> script_requests (world_of (element_step e a w)) \<noteq> [])"
  proof (cases "google_defined w")
    case False
    then show ?thesis
      using q by (auto simp: construct_step_not_ready [OF False e a] loader_inv_def alloc_defs)
  next
    case True
    let ?w1 = "(save_element (next_inst w) (alloc_Plugin e a w))\<lparr>Plugin_loaded := True\<rparr>"
    from construct_step_ready [OF True e a] obtain w'
      where d: "Plugin_draw (next_inst w) ?w1 = Inr w'"
        and s: "element_step e a w = Inr (upd_elem e (\<lambda>x. x\<lparr>el_data := Some (next_inst w)\<rparr>) w')"
      by blast
    have "w' = world_of (Plugin_draw (next_inst w) ?w1)" using d by simp
    then have "google_defined w' = google_defined ?w1" "Plugin_loaded w' = Plugin_loaded ?w1"
      "script_requests w' = script_requests ?w1"
      by (simp_all add: draw_frame)
    then show ?thesis
      using q True by (simp add: s loader_inv_def alloc_defs)
  qed
next
  fix i w assume "loader_inv w \<and> (c \<longrightarrow> script_requests w \<noteq> [])"
  then show "loader_inv (world_of (Plugin_zoom i w)) \<and> (c \<longrightarrow> script_requests (world_of (Plugin_zoom i w)) \<noteq> [])"
    by (simp add: loader_inv_def zoom_frame)
next
  fix l w assume "loader_inv w \<and> (c \<longrightarrow> script_requests w \<noteq> [])"
  then show "loader_inv (world_of (run_listener l w)) \<and> (c \<longrightarrow> script_requests (world_of (run_listener l w)) \<noteq> [])"
    by (simp add: loader_inv_def listener_frame)
qed (simp_all add: loader_inv_def upd_elem_def)

lemma loader_run:
  assumes "loader_inv w \<and> (c \<longrightarrow> script_requests w \<noteq> [])"
  shows "loader_inv (run evs w) \<and> (c \<longrightarrow> script_requests (run evs w) \<noteq> [])"
  by (rule run_preserves [where Q = "\<lambda>w. loader_inv w \<and> (c \<longrightarrow> script_requests w \<noteq> [])"])
     (use assms loader_step in blast)+

lemma loader_init: "loader_inv (init_world g page)"
  by (simp add: loader_inv_def init_world_def)

lemma load_while_pending:
  assumes "\<not> google_defined w" and "Plugin_loaded w"
  shows "Plugin_load i w = Inr (enqueue i w)"
  using assms by (simp add: Plugin_load_def enqueue_def)

text \<open>
  C3. On a page that starts without any request, whatever happens, the script is
  requested at most once. When an instance is constructed while the API is not there, the
  script has been requested exactly once from then on. A \<open>load()\<close> that finds the API
  missing and \<open>Plugin.loaded\<close> set only appends the instance to the pending list; a
  \<open>load()\<close> that finds the API missing and \<open>Plugin.loaded\<close> not set makes the request and
  sets the flag.
\<close>

theorem script_requested_at_most_once:
  fixes evs evs' g page e opts i
  defines "w \<equiv> run evs (init_world g page)"
  shows "length (script_requests w) \<le> 1 \<and>
    (\<not> google_defined w \<and> el_data (elements w e) = None \<longrightarrow>
       length (script_requests (run evs' (step (construct (e, opts)) w))) = 1) \<and>
    (\<not> google_defined w \<and> Plugin_loaded w \<longrightarrow>
       Plugin_load i w = Inr (enqueue i w) \<and> script_requests (enqueue i w) = script_requests w) \<and>
    (\<not> google_defined w \<and> \<not> Plugin_loaded w \<longrightarrow>
       (\<exists>w'. Plugin_load i w = Inr w' \<and> Plugin_loaded w' \<and> pending w' = pending w @ [i] \<and>
          script_requests w' = [script_url (o_key (options (instances w i)))]))"
proof -
  have inv: "loader_inv w"
    using loader_run [of "init_world g page" False evs] loader_init by (simp add: w_def)
  have one: "length (script_requests w) \<le> 1"
    using inv by (simp add: loader_inv_def)
  have two: "length (script_requests (run evs' (step (construct (e, opts)) w))) = 1"
    if ng: "\<not> google_defined w" and nd: "el_data (elements w e) = None"
  proof -
    let ?w1 = "step (construct (e, opts)) w"
    have s: "?w1 = world_of (element_step e (ArgOptions opts) w)"
      unfolding construct_def step_Call by (simp add: jQuery_def split: sum.splits)
    have a: "\<forall>s. ArgOptions opts \<noteq> ArgString s" by simp
    have "loader_inv ?w1" using loader_step [of w False] inv by simp
    moreover have "script_requests ?w1 \<noteq> []"
      using inv ng by (auto simp: s construct_step_not_ready [OF ng nd a] loader_inv_def alloc_defs)
    ultimately have "loader_inv (run evs' ?w1) \<and> script_requests (run evs' ?w1) \<noteq> []"
      using loader_run [of ?w1 True evs'] by simp
    then show ?thesis
      by (cases "script_requests (run evs' ?w1)") (simp_all add: loader_inv_def)
  qed
  have three: "Plugin_load i w = Inr (enqueue i w) \<and> script_requests (enqueue i w) = script_requests w"
    if "\<not> google_defined w" and "Plugin_loaded w"
    using that by (simp add: load_while_pending enqueue_def)
  have four: "\<exists>w'. Plugin_load i w = Inr w' \<and> Plugin_loaded w' \<and> pending w' = pending w @ [i] \<and>
          script_requests w' = [script_url (o_key (options (instances w i)))]"
    if "\<not> google_defined w" and "\<not> Plugin_loaded w"
  proof -
    have "script_requests w = []" using inv that by (auto simp: loader_inv_def)
    then show ?thesis
      using that by (simp add: Plugin_load_def enqueue_def pending_def)
  qed
  from one two three four show ?thesis by blast
qed

theorem script_requested_at_most_once_witness:
  "length (script_requests (run [construct (0, defaults), construct (1, zoom5)] (init_world False empty_page))) \<le> 1 \<and>
   \<not> google_defined (run [] (init_world False empty_page)) \<and>
   el_data (elements (run [] (init_world False empty_page)) 0) = None \<and>
   length (script_requests (run [construct (1, zoom5), GoogleDefined, GoogleMapsInit]
     (step (construct (0, defaults)) (run [] (init_world False empty_page))))) = 1 \<and>
   \<not> google_defined queued_world \<and> Plugin_loaded queued_world \<and>
   Plugin_load 1 queued_world = Inr (enqueue 1 queued_world)"
proof -
  have q: "queued_world = run [construct (0, defaults), construct (1, zoom5)] (init_world False empty_page)"
    by (simp add: queued_world_def)
  have h: "\<not> google_defined (run [] (init_world False empty_page))"
    "el_data (elements (run [] (init_world False empty_page)) 0) = None"
    by (simp_all add: init_world_def)
  have k: "\<not> google_defined queued_world" "Plugin_loaded queued_world"
    by (simp_all add: queued_world_def eval_defs zoom5_def)
  from script_requested_at_most_once
         [of "[construct (0, defaults), construct (1, zoom5)]" False empty_page 0 "[]" defaults 1]
       script_requested_at_most_once
         [of "[]" False empty_page 0 "[construct (1, zoom5), GoogleDefined, GoogleMapsInit]" defaults 1]
       h k q
  show ?thesis by simp
qed

subsection \<open>The pending list\<close>

lemma init_keeps_queue: "window_googleMaps (world_of (googleMapsInit w)) = window_googleMaps w"
proof (cases "window_googleMaps w")
  case None
  then show ?thesis by (simp add: googleMapsInit_def)
next
  case (Some q)
  have "window_googleMaps (world_of (each Plugin_draw q w)) = window_googleMaps w"
    by (rule each_preserves [where P = "\<lambda>w'. window_googleMaps w' = window_googleMaps w"])
       (simp_all add: draw_frame)
  then show ?thesis using Some by (simp add: googleMapsInit_def)
qed

lemma ready_keeps_queue:
  fixes w :: world
  assumes "google_defined w \<and> window_googleMaps w = c"
  shows "google_defined (step ev w) \<and> window_googleMaps (step ev w) = c"
proof (rule step_preserves [where Q = "\<lambda>w::world. google_defined w \<and> window_googleMaps w = c"
        and V = "\<lambda>i w. True"])
  show "google_defined w \<and> window_googleMaps w = c" by (rule assms)
next
  fix e a and w :: world
  assume q: "google_defined w \<and> window_googleMaps w = c"
    and e: "el_data (elements w e) = None" and a: "\<forall>s. a \<noteq> ArgString s"
  let ?w1 = "(save_element (next_inst w) (alloc_Plugin e a w))\<lparr>Plugin_loaded := True\<rparr>"
  from q have g: "google_defined w" by simp
  from construct_step_ready [OF g e a] obtain w'
    where d: "Plugin_draw (next_inst w) ?w1 = Inr w'"
      and s: "element_step e a w = Inr (upd_elem e (\<lambda>x. x\<lparr>el_data := Some (next_inst w)\<rparr>) w')"
    by blast
  have "w' = world_of (Plugin_draw (next_inst w) ?w1)" using d by simp
  then have "google_defined w' = google_defined ?w1" "window_googleMaps w' = window_googleMaps ?w1"
    by (simp_all add: draw_frame)
  then show "google_defined (world_of (element_step e a w)) \<and>
             window_googleMaps (world_of (element_step e a w)) = c"
    using q by (simp add: s alloc_defs)
qed (simp_all add: draw_frame remove_frame destroy_frame zoom_frame listener_frame upd_elem_def)

lemma queue_grows:
  assumes "\<exists>ys. pending w = xs @ ys"
  shows "\<exists>ys. pending (step ev w) = xs @ ys"
proof (rule step_preserves [where Q = "\<lambda>w. \<exists>ys. pending w = xs @ ys" and V = "\<lambda>i w. True"])
  show "\<exists>ys. pending w = xs @ ys" by (rule assms)
next
  fix e a w
  assume q: "\<exists>ys. pending w = xs @ ys"
    and e: "el_data (elements w e) = None" and a: "\<forall>s. a \<noteq> ArgString s"
  show "\<exists>ys. pending (world_of (element_step e a w)) = xs @ ys"
  proof (cases "google_defined w")
    case False
    have "pending (world_of (element_step e a w)) = pending w @ [next_inst w]"
      by (simp add: construct_step_not_ready [OF False e a] alloc_defs pending_def)
    then show ?thesis using q by auto
  next
    case True
    let ?w1 = "(save_element (next_inst w) (alloc_Plugin e a w))\<lparr>Plugin_loaded := True\<rparr>"
    from construct_step_ready [OF True e a] obtain w'
      where d: "Plugin_draw (next_inst w) ?w1 = Inr w'"
        and s: "element_step e a w = Inr (upd_elem e (\<lambda>x. x\<lparr>el_data := Some (next_inst w)\<rparr>) w')"
      by blast
    have "w' = world_of (Plugin_draw (next_inst w) ?w1)" using d by simp
    then have "window_googleMaps w' = window_googleMaps ?w1"
      by (simp add: draw_frame)
    then have "pending (world_of (element_step e a w)) = pending w"
      by (simp add: s alloc_defs pending_def)
    then show ?thesis using q by simp
  qed
qed (simp_all add: pending_def draw_frame remove_frame destroy_frame zoom_frame listener_frame
       upd_elem_def)

text \<open>
  C5 (as amended). Nothing removes an instance from the pending list: every event leaves
  the list it found as a prefix of the list it leaves. The completion callback draws the
  instances of the list and leaves the list as it is, and once the API is there no event
  changes the list. So the list grows only while the API is missing, and after the callback
  it still holds every instance that was constructed before.
\<close>

theorem pending_only_grows:
  "window_googleMaps (world_of (googleMapsInit w)) = window_googleMaps w \<and>
   (google_defined w \<longrightarrow> window_googleMaps (step ev w) = window_googleMaps w) \<and>
   (\<exists>ys. pending (step ev w) = pending w @ ys)"
  using init_keeps_queue [of w] ready_keeps_queue [of w "window_googleMaps w" ev]
    queue_grows [of w "pending w" ev]
  by simp

theorem pending_only_grows_witness:
  "google_defined (step GoogleDefined queued_world) \<and>
   window_googleMaps (step GoogleMapsInit (step GoogleDefined queued_world)) = Some [0, 1] \<and>
   window_googleMaps (world_of (googleMapsInit (step GoogleDefined queued_world))) = Some [0, 1]"
proof -
  have "google_defined (step GoogleDefined queued_world)"
    "window_googleMaps (step GoogleDefined queued_world) = Some [0, 1]"
    by (simp_all add: queued_world_def eval_defs zoom5_def)
  with pending_only_grows [of "step GoogleDefined queued_world" GoogleMapsInit]
  show ?thesis by simp
qed

text \<open>
  C5 as stated fails: one instance constructed before the API is there, then the API and
  its callback. The instance has been drawn (one map exists), the API is there, and the
  pending list still holds the instance.
\<close>

theorem pending_not_emptied_counterexample:
  "google_defined (run [construct (0, defaults), GoogleDefined, GoogleMapsInit] (init_world False empty_page)) \<and>
   next_map (run [construct (0, defaults), GoogleDefined, GoogleMapsInit] (init_world False empty_page)) = 1 \<and>
   pending (run [construct (0, defaults), GoogleDefined, GoogleMapsInit] (init_world False empty_page)) = [0]"
  by (simp add: eval_defs)

subsection \<open>remove\<close>

text \<open>
  C9 fails on the code for an element that has no style attribute when the instance is
  constructed. The saved style is then \<open>undefined\<close>, and \<open>attr('style', undefined)\<close>
  writes nothing: after \<open>remove()\<close> the element has its saved content back (markup that
  the browser gives back unchanged) and still holds the instance, but it keeps the style
  that the map gave it.
\<close>

theorem remove_keeps_map_style:
  "el_style (elements (init_world True plain_page) 0) = None \<and>
   styles (instances rendered_world 0) = None \<and>
   el_style (elements (step (Call (jQuery [0]) (ArgString ''remove'')) rendered_world) 0) =
     Some ''position: relative; overflow: hidden;'' \<and>
   el_html (elements (step (Call (jQuery [0]) (ArgString ''remove'')) rendered_world) 0) =
     ''<p>loading</p>'' \<and>
   el_data (elements (step (Call (jQuery [0]) (ArgString ''remove'')) rendered_world) 0) = Some 0"
  by (simp add: rendered_world_def plain_page_def eval_defs)

subsection \<open>The resize handler\<close>

lemma draw_refs_ok:
  assumes "refs_ok w" and "i < next_inst w"
  shows "refs_ok (world_of (Plugin_draw i w))"
proof (cases "google_defined w")
  case False
  then show ?thesis using assms by (simp add: draw_not_ready)
next
  case True
  from draw_ready [OF True, of i] obtain b g mk where "Plugin_draw i w =
       Inr (w\<lparr>instances := (instances w)(i := (instances w i)\<lparr>gmap := Some (next_map w), bounds := Some b\<rparr>),
           gmaps := (gmaps w)(next_map w := g),
           next_map := Suc (next_map w),
           markers := mk,
           resize_handlers := resize_handlers w @ (if o_responsive (options (instances w i)) then [i] else []),
           callback_calls := callback_calls w @
             (case o_callback (options (instances w i)) of None \<Rightarrow> [] | Some c \<Rightarrow> [(c, i)])\<rparr>)"
    by blast
  then show ?thesis using assms by (auto simp: refs_ok_def pending_def)
qed

lemma draw_subscribes:
  assumes "google_defined w" and "o_responsive (options (instances w i))"
    and "i \<in> set (resize_handlers w) \<or> c"
  shows "i \<in> set (resize_handlers (world_of (Plugin_draw i w)))"
proof -
  from draw_ready [OF assms(1), of i] obtain w' where "Plugin_draw i w = Inr w'"
    and "resize_handlers w' = resize_handlers w @ (if o_responsive (options (instances w i)) then [i] else [])"
    by auto
  then show ?thesis using assms by simp
qed

lemma draw_handlers_grow:
  "\<exists>ys. resize_handlers (world_of (Plugin_draw i w)) = resize_handlers w @ ys"
proof (cases "google_defined w")
  case False
  then show ?thesis by (simp add: draw_not_ready)
next
  case True
  from draw_ready [OF True, of i] obtain w' where "Plugin_draw i w = Inr w'"
    and "resize_handlers w' = resize_handlers w @ (if o_responsive (options (instances w i)) then [i] else [])"
    by auto
  then show ?thesis by simp
qed

lemma refs_step:
  assumes "refs_ok w \<and> (c \<longrightarrow> k \<in> set (resize_handlers w))"
  shows "refs_ok (step ev w) \<and> (c \<longrightarrow> k \<in> set (resize_handlers (step ev w)))"
proof (rule step_preserves [where Q = "\<lambda>w. refs_ok w \<and> (c \<longrightarrow> k \<in> set (resize_handlers w))"
        and V = "\<lambda>i w. i < next_inst w"])
  show "refs_ok w \<and> (c \<longrightarrow> k \<in> set (resize_handlers w))" by (rule assms)
next
  fix i w assume "refs_ok w \<and> (c \<longrightarrow> k \<in> set (resize_handlers w))" and "i < next_inst w"
  then show "refs_ok (world_of (Plugin_draw i w)) \<and> (c \<longrightarrow> k \<in> set (resize_handlers (world_of (Plugin_draw i w))))"
    using draw_refs_ok [of w i] draw_handlers_grow [of i w] by auto
next
  fix i j and w :: world assume "i < next_inst w"
  then show "i < next_inst (world_of (Plugin_draw j w))" by (simp add: draw_frame)
next
  fix i w assume "refs_ok w \<and> (c \<longrightarrow> k \<in> set (resize_handlers w))" and "i < next_inst w"
  then show "refs_ok (Plugin_remove i w) \<and> (c \<longrightarrow> k \<in> set (resize_handlers (Plugin_remove i w)))"
    by (simp add: refs_ok_def pending_def remove_frame)
next
  fix i w assume "refs_ok w \<and> (c \<longrightarrow> k \<in> set (resize_handlers w))" and "i < next_inst w"
  then show "refs_ok (Plugin_destroy i w) \<and> (c \<longrightarrow> k \<in> set (resize_handlers (Plugin_destroy i w)))"
    by (simp add: refs_ok_def pending_def destroy_frame)
next
  fix e a w
  assume q: "refs_ok w \<and> (c \<longrightarrow> k \<in> set (resize_handlers w))"
    and e: "el_data (elements w e) = None" and a: "\<forall>s. a \<noteq> ArgString s"
  show "refs_ok (world_of (element_step e a w)) \<and>
        (c \<longrightarrow> k \<in> set (resize_handlers (world_of (element_step e a w))))"
  proof (cases "google_defined w")
    case False
    show ?thesis
      using q by (auto simp: construct_step_not_ready [OF False e a] refs_ok_def alloc_defs pending_def
          less_Suc_eq)
  next
    case True
    let ?w1 = "(save_element (next_inst w) (alloc_Plugin e a w))\<lparr>Plugin_loaded := True\<rparr>"
    from construct_step_ready [OF True e a] obtain w'
      where d: "Plugin_draw (next_inst w) ?w1 = Inr w'"
        and s: "element_step e a w = Inr (upd_elem e (\<lambda>x. x\<lparr>el_data := Some (next_inst w)\<rparr>) w')"
      by blast
    have w': "w' = world_of (Plugin_draw (next_inst w) ?w1)" using d by simp
    have r1: "refs_ok ?w1"
      using q by (auto simp: refs_ok_def alloc_defs pending_def less_Suc_eq)
    have n1: "next_inst w < next_inst ?w1" by (simp add: alloc_defs)
    have "refs_ok w'" unfolding w' by (rule draw_refs_ok [OF r1 n1])
    moreover have "next_inst w' = Suc (next_inst w)"
      unfolding w' by (simp add: draw_frame alloc_defs)
    moreover have "c \<longrightarrow> k \<in> set (resize_handlers w')"
      using draw_handlers_grow [of "next_inst w" ?w1] q by (auto simp: w' alloc_defs)
    ultimately show ?thesis
      by (auto simp: s refs_ok_def upd_elem_def pending_def)
  qed
next
  fix i w assume "refs_ok w \<and> (c \<longrightarrow> k \<in> set (resize_handlers w))"
  then show "refs_ok (world_of (Plugin_zoom i w)) \<and> (c \<longrightarrow> k \<in> set (resize_handlers (world_of (Plugin_zoom i w))))"
    by (simp add: refs_ok_def pending_def zoom_frame)
next
  fix l w assume "refs_ok w \<and> (c \<longrightarrow> k \<in> set (resize_handlers w))"
  then show "refs_ok (world_of (run_listener l w)) \<and> (c \<longrightarrow> k \<in> set (resize_handlers (world_of (run_listener l w))))"
    by (simp add: refs_ok_def pending_def listener_frame)
qed (auto simp: refs_ok_def pending_def upd_elem_def)

lemma refs_run:
  assumes "refs_ok w \<and> (c \<longrightarrow> k \<in> set (resize_handlers w))"
  shows "refs_ok (run evs w) \<and> (c \<longrightarrow> k \<in> set (resize_handlers (run evs w)))"
  by (rule run_preserves [where Q = "\<lambda>w. refs_ok w \<and> (c \<longrightarrow> k \<in> set (resize_handlers w))"])
     (use assms refs_step in blast)+

lemma refs_init: "refs_ok (init_world g page)"
  by (simp add: refs_ok_def init_world_def pending_def)

lemma zoom_calls_exact:
  assumes "gmap (instances w j) = Some mj"
  shows "\<exists>g. Plugin_zoom j w = Inr (w\<lparr>gmaps := (gmaps w)(mj := g)\<rparr>) \<and>
           m_calls g = m_calls (gmaps w mj) @
             FitBounds (bounds (instances w j)) # center_zoom_calls (options (instances w j))"
  apply (rule exI [of _ "gmaps (world_of (Plugin_zoom j w)) mj"])
  using assms
  apply (auto simp: zoom_defs center_zoom_calls_def split: option.splits)
  done

lemma zoom_calls_mono: "calls_of p m w \<le> calls_of p m (world_of (Plugin_zoom j w))"
proof (cases "gmap (instances w j)")
  case None
  then show ?thesis by (simp add: zoom_no_map)
next
  case (Some mj)
  from zoom_calls_exact [OF Some] obtain g
    where z: "Plugin_zoom j w = Inr (w\<lparr>gmaps := (gmaps w)(mj := g)\<rparr>)"
      and c: "m_calls g = m_calls (gmaps w mj) @
             FitBounds (bounds (instances w j)) # center_zoom_calls (options (instances w j))"
    by blast
  show ?thesis by (simp add: z c calls_of_def del: filter.simps)
qed

lemma filter_hit: "\<exists>c \<in> set xs. p c \<Longrightarrow> 0 < length (filter p xs)"
  by (simp add: filter_empty_conv)

lemma zoom_calls_strict:
  assumes "gmap (instances w j) = Some m"
    and "\<exists>c \<in> set (FitBounds (bounds (instances w j)) # center_zoom_calls (options (instances w j))). p c"
  shows "calls_of p m w < calls_of p m (world_of (Plugin_zoom j w))"
proof -
  from zoom_calls_exact [OF assms(1)] obtain g
    where z: "Plugin_zoom j w = Inr (w\<lparr>gmaps := (gmaps w)(m := g)\<rparr>)"
      and c: "m_calls g = m_calls (gmaps w m) @
             FitBounds (bounds (instances w j)) # center_zoom_calls (options (instances w j))"
    by blast
  have "0 < length (filter p (FitBounds (bounds (instances w j)) # center_zoom_calls (options (instances w j))))"
    by (rule filter_hit [OF assms(2)])
  then show ?thesis by (simp add: z c calls_of_def del: filter.simps)
qed

lemma zoom_returns:
  assumes "gmap (instances w j) \<noteq> None"
  shows "Plugin_zoom j w = Inr (world_of (Plugin_zoom j w))"
proof -
  from assms obtain mj where mj: "gmap (instances w j) = Some mj" by auto
  from zoom_calls_exact [OF mj] obtain g
    where "Plugin_zoom j w = Inr (w\<lparr>gmaps := (gmaps w)(mj := g)\<rparr>)"
    by blast
  then show ?thesis by simp
qed

lemma handlers_return:
  assumes "\<forall>j \<in> set hs. gmap (instances w j) \<noteq> None"
  shows "each Plugin_zoom hs w = Inr (world_of (each Plugin_zoom hs w)) \<and>
         instances (world_of (each Plugin_zoom hs w)) = instances w"
  using assms
proof (induction hs arbitrary: w)
  case Nil
  then show ?case by simp
next
  case (Cons j hs)
  let ?w1 = "world_of (Plugin_zoom j w)"
  have z: "Plugin_zoom j w = Inr ?w1" by (rule zoom_returns) (use Cons.prems in simp)
  have i1: "instances ?w1 = instances w" by (simp add: zoom_frame)
  have "\<forall>j \<in> set hs. gmap (instances ?w1 j) \<noteq> None" using Cons.prems i1 by simp
  from Cons.IH [OF this] have "each Plugin_zoom hs ?w1 = Inr (world_of (each Plugin_zoom hs ?w1))"
    and "instances (world_of (each Plugin_zoom hs ?w1)) = instances ?w1"
    by simp_all
  moreover have "each Plugin_zoom (j # hs) w = each Plugin_zoom hs ?w1"
    by (subst each.simps(2), subst z) simp
  ultimately show ?case using i1 by simp
qed

lemma handlers_mono: "calls_of p m w \<le> calls_of p m (world_of (each Plugin_zoom hs w))"
  by (rule each_preserves [where P = "\<lambda>w'. calls_of p m w \<le> calls_of p m w'"])
     (use zoom_calls_mono order_trans in blast, simp)

lemma handlers_strict:
  assumes "\<forall>j \<in> set hs. gmap (instances w j) \<noteq> None" and "i \<in> set hs"
    and "gmap (instances w i) = Some m"
    and "\<exists>c \<in> set (FitBounds (bounds (instances w i)) # center_zoom_calls (options (instances w i))). p c"
  shows "calls_of p m w < calls_of p m (world_of (each Plugin_zoom hs w))"
  using assms
proof (induction hs arbitrary: w)
  case Nil
  then show ?case by simp
next
  case (Cons j hs)
  let ?w1 = "world_of (Plugin_zoom j w)"
  have z: "Plugin_zoom j w = Inr ?w1" by (rule zoom_returns) (use Cons.prems(1) in simp)
  have i1: "instances ?w1 = instances w" by (simp add: zoom_frame)
  have e: "each Plugin_zoom (j # hs) w = each Plugin_zoom hs ?w1"
    by (subst each.simps(2), subst z) simp
  show ?case
  proof (cases "i = j")
    case True
    have "calls_of p m w < calls_of p m ?w1"
      using zoom_calls_strict [of w j m p] Cons.prems(3,4) True by simp
    moreover have "calls_of p m ?w1 \<le> calls_of p m (world_of (each Plugin_zoom hs ?w1))"
      by (rule handlers_mono)
    ultimately show ?thesis unfolding e by simp
  next
    case False
    then have "i \<in> set hs" using Cons.prems(2) by simp
    moreover have "\<forall>j \<in> set hs. gmap (instances ?w1 j) \<noteq> None" using Cons.prems(1) i1 by simp
    ultimately have "calls_of p m ?w1 < calls_of p m (world_of (each Plugin_zoom hs ?w1))"
      using Cons.IH [of ?w1] Cons.prems(3,4) i1 by simp
    moreover have "calls_of p m w \<le> calls_of p m ?w1" by (rule zoom_calls_mono)
    ultimately show ?thesis unfolding e by simp
  qed
qed

text \<open>
  C10. Take an instance with \<open>responsive: true\<close> and any call of \<open>draw()\<close> on it that
  returns (the first draw or a redraw), in a world whose references are sound, as they are
  on every page. Whatever happens afterwards, \<open>remove()\<close> and \<open>destroy()\<close> leave the list of
  resize handlers as it is, the instance's handler is still in it, and the next resized
  signal returns normally and calls \<open>fitBounds\<close> again on the map of that instance.
\<close>

theorem resize_handler_survives_remove:
  assumes "refs_ok w" and "i < next_inst w" and "o_responsive (options (instances w i))"
    and "Plugin_draw i w = Inr w1"
    and "w3 = Plugin_remove i (run evs w1) \<or> w3 = Plugin_destroy i (run evs w1)"
  shows "resize_handlers w3 = resize_handlers (run evs w1) \<and> i \<in> set (resize_handlers w3) \<and>
    (\<exists>m w4. gmap (instances w3 i) = Some m \<and> trigger_resizeEvent w3 = Inr w4 \<and>
       gmap (instances w4 i) = Some m \<and> fit_calls m w3 < fit_calls m w4 \<and>
       (has_center (options (instances w3 i)) \<longrightarrow> center_calls m w3 < center_calls m w4) \<and>
       (truthy (o_zoom (options (instances w3 i))) \<longrightarrow> zoom_calls m w3 < zoom_calls m w4))"
proof -
  have g: "google_defined w"
    using assms(4) by (cases "google_defined w") (simp_all add: draw_not_ready)
  have w1: "w1 = world_of (Plugin_draw i w)" using assms(4) by simp
  have "refs_ok w1" unfolding w1 by (rule draw_refs_ok [OF assms(1,2)])
  moreover have "i \<in> set (resize_handlers w1)"
    unfolding w1 by (rule draw_subscribes [OF g assms(3), of True]) simp
  ultimately have r2: "refs_ok (run evs w1)" and h2: "i \<in> set (resize_handlers (run evs w1))"
    using refs_run [of w1 True i evs] by simp_all
  have same: "resize_handlers w3 = resize_handlers (run evs w1)" "instances w3 = instances (run evs w1)"
    using assms(5) by (auto simp: remove_frame destroy_frame)
  have "next_inst w3 = next_inst (run evs w1)" "window_googleMaps w3 = window_googleMaps (run evs w1)"
    "\<And>e j. el_data (elements w3 e) = Some j \<Longrightarrow> el_data (elements (run evs w1) e) = Some j"
    using assms(5) by (auto simp: remove_frame destroy_frame split: if_splits)
  then have r3: "refs_ok w3"
    using r2 same unfolding refs_ok_def pending_def by metis
  have h3: "i \<in> set (resize_handlers w3)" using h2 same by simp
  from r3 h3 obtain m where m: "gmap (instances w3 i) = Some m"
    by (auto simp: refs_ok_def)
  have maps: "\<forall>j \<in> set (resize_handlers w3). gmap (instances w3 j) \<noteq> None"
    using r3 by (simp add: refs_ok_def)
  define w4 where "w4 = world_of (each Plugin_zoom (resize_handlers w3) w3)"
  have t: "trigger_resizeEvent w3 = Inr w4" and i4: "instances w4 = instances w3"
    using handlers_return [OF maps] by (simp_all add: trigger_resizeEvent_def w4_def)
  have more: "calls_of p m w3 < calls_of p m w4"
    if "\<exists>c \<in> set (FitBounds (bounds (instances w3 i)) # center_zoom_calls (options (instances w3 i))). p c"
    for p
    unfolding w4_def by (rule handlers_strict [OF maps h3 m that])
  have "fit_calls m w3 < fit_calls m w4"
    using more [of is_FitBounds] by (simp add: fit_calls_def calls_of_def)
  moreover have "center_calls m w3 < center_calls m w4" if "has_center (options (instances w3 i))"
  proof -
    from that obtain loc where "o_center (options (instances w3 i)) = Some loc"
      and "fst loc \<noteq> JUndefined \<and> snd loc \<noteq> JUndefined"
      by (auto simp: has_center_def split: option.splits)
    then have "\<exists>c \<in> set (FitBounds (bounds (instances w3 i)) # center_zoom_calls (options (instances w3 i))). is_SetCenter c"
      by (simp add: center_zoom_calls_def)
    from more [OF this] show ?thesis by (simp add: center_calls_def calls_of_def)
  qed
  moreover have "zoom_calls m w3 < zoom_calls m w4" if "truthy (o_zoom (options (instances w3 i)))"
  proof -
    from that have "\<exists>c \<in> set (FitBounds (bounds (instances w3 i)) # center_zoom_calls (options (instances w3 i))). is_SetZoom c"
      by (simp add: center_zoom_calls_def)
    from more [OF this] show ?thesis by (simp add: zoom_calls_def calls_of_def)
  qed
  ultimately have "gmap (instances w3 i) = Some m \<and> trigger_resizeEvent w3 = Inr w4 \<and>
       gmap (instances w4 i) = Some m \<and> fit_calls m w3 < fit_calls m w4 \<and>
       (has_center (options (instances w3 i)) \<longrightarrow> center_calls m w3 < center_calls m w4) \<and>
       (truthy (o_zoom (options (instances w3 i))) \<longrightarrow> zoom_calls m w3 < zoom_calls m w4)"
    using m t i4 by simp
  then have "\<exists>m w4. gmap (instances w3 i) = Some m \<and> trigger_resizeEvent w3 = Inr w4 \<and>
       gmap (instances w4 i) = Some m \<and> fit_calls m w3 < fit_calls m w4 \<and>
       (has_center (options (instances w3 i)) \<longrightarrow> center_calls m w3 < center_calls m w4) \<and>
       (truthy (o_zoom (options (instances w3 i))) \<longrightarrow> zoom_calls m w3 < zoom_calls m w4)"
    by blast
  then show ?thesis using same h3 by simp
qed

theorem resize_handler_survives_remove_witness:
  "refs_ok (step GoogleDefined responsive_world) \<and> 0 < next_inst (step GoogleDefined responsive_world) \<and>
   o_responsive (options (instances (step GoogleDefined responsive_world) 0)) \<and>
   Plugin_draw 0 (step GoogleDefined responsive_world) = Inr (step GoogleMapsInit (step GoogleDefined responsive_world)) \<and>
   resize_handlers (Plugin_destroy 0 (run [BoundsChanged 0] (step GoogleMapsInit (step GoogleDefined responsive_world)))) = [0] \<and>
   (\<exists>m w4. gmap (instances (Plugin_destroy 0 (run [BoundsChanged 0] (step GoogleMapsInit (step GoogleDefined responsive_world)))) 0) = Some m \<and>
      trigger_resizeEvent (Plugin_destroy 0 (run [BoundsChanged 0] (step GoogleMapsInit (step GoogleDefined responsive_world)))) = Inr w4 \<and>
      gmap (instances w4 0) = Some m \<and>
      fit_calls m (Plugin_destroy 0 (run [BoundsChanged 0] (step GoogleMapsInit (step GoogleDefined responsive_world)))) < fit_calls m w4 \<and>
      (has_center (options (instances (Plugin_destroy 0 (run [BoundsChanged 0] (step GoogleMapsInit (step GoogleDefined responsive_world)))) 0)) \<longrightarrow>
         center_calls m (Plugin_destroy 0 (run [BoundsChanged 0] (step GoogleMapsInit (step GoogleDefined responsive_world)))) < center_calls m w4) \<and>
      (truthy (o_zoom (options (instances (Plugin_destroy 0 (run [BoundsChanged 0] (step GoogleMapsInit (step GoogleDefined responsive_world)))) 0))) \<longrightarrow>
         zoom_calls m (Plugin_destroy 0 (run [BoundsChanged 0] (step GoogleMapsInit (step GoogleDefined responsive_world)))) < zoom_calls m w4))"
proof -
  let ?w = "step GoogleDefined responsive_world"
  let ?w1 = "step GoogleMapsInit ?w"
  have r: "refs_ok ?w"
    using refs_run [of "init_world False empty_page" False 0 "[construct (0, responsive_map), GoogleDefined]"]
      refs_init [of False empty_page]
    by (simp add: responsive_world_def)
  have h: "0 < next_inst ?w" "o_responsive (options (instances ?w 0))"
    by (simp_all add: responsive_world_def eval_defs responsive_map_def)
  have d: "Plugin_draw 0 ?w = Inr ?w1"
    by (simp add: responsive_world_def eval_defs responsive_map_def)
  have k: "resize_handlers (run [BoundsChanged 0] ?w1) = [0]"
    by (simp add: responsive_world_def eval_defs responsive_map_def)
  from resize_handler_survives_remove [OF r h d, of "Plugin_destroy 0 (run [BoundsChanged 0] ?w1)" "[BoundsChanged 0]"]
    r h d k
  show ?thesis by simp
qed

subsection \<open>Map handles\<close>




subsection \<open>One re-application\<close>












subsection \<open>Deferred draws\<close>

lemma step_construct:
  "step (construct c) w = world_of (element_step (fst c) (ArgOptions (snd c)) w)"
  unfolding construct_def step_Call by (simp add: jQuery_def split: sum.splits)

lemma construct_not_ready_facts:
  fixes c w
  defines "w' \<equiv> step (construct c) w"
  assumes ng: "\<not> google_defined w" and e: "el_data (elements w (fst c)) = None"
  shows "\<not> google_defined w'" and "next_inst w' = Suc (next_inst w)"
    and "pending w' = pending w @ [next_inst w]" and "next_map w' = next_map w"
    and "element (instances w' (next_inst w)) = fst c"
    and "options (instances w' (next_inst w)) = snd c"
    and "j \<noteq> next_inst w \<Longrightarrow> instances w' j = instances w j"
    and "x \<noteq> fst c \<Longrightarrow> el_data (elements w' x) = el_data (elements w x)"
proof -
  have a: "\<forall>s. ArgOptions (snd c) \<noteq> ArgString s" by simp
  note s = construct_step_not_ready [OF ng e a]
  show "\<not> google_defined w'" and "next_inst w' = Suc (next_inst w)"
    and "pending w' = pending w @ [next_inst w]" and "next_map w' = next_map w"
    and "element (instances w' (next_inst w)) = fst c"
    and "options (instances w' (next_inst w)) = snd c"
    and "j \<noteq> next_inst w \<Longrightarrow> instances w' j = instances w j"
    and "x \<noteq> fst c \<Longrightarrow> el_data (elements w' x) = el_data (elements w x)"
    using ng unfolding w'_def step_construct s
    by (simp_all add: alloc_defs pending_def)
qed

lemma upt_first: "[n ..< n + Suc l] = n # [Suc n ..< Suc n + l]"
  by (subst upt_conv_Cons) simp_all

lemma construct_all_not_ready:
  assumes "\<not> google_defined w" and "distinct (map fst cs)"
    and "\<forall>c \<in> set cs. el_data (elements w (fst c)) = None"
  shows "\<not> google_defined (run (map construct cs) w) \<and>
         next_inst (run (map construct cs) w) = next_inst w + length cs \<and>
         pending (run (map construct cs) w) = pending w @ [next_inst w ..< next_inst w + length cs] \<and>
         next_map (run (map construct cs) w) = next_map w \<and>
         (\<forall>k < length cs. element (instances (run (map construct cs) w) (next_inst w + k)) = fst (cs ! k)) \<and>
         (\<forall>j < next_inst w. instances (run (map construct cs) w) j = instances w j)"
  using assms
proof (induction cs arbitrary: w)
  case Nil
  then show ?case by simp
next
  case (Cons c cs)
  let ?w1 = "step (construct c) w"
  let ?w' = "run (map construct cs) ?w1"
  have ng: "\<not> google_defined w" and e: "el_data (elements w (fst c)) = None"
    using Cons.prems by simp_all
  note f = construct_not_ready_facts [OF ng e]
  have d: "distinct (map fst cs)" using Cons.prems(2) by simp
  have "\<forall>x \<in> set cs. el_data (elements ?w1 (fst x)) = None"
  proof
    fix x assume x: "x \<in> set cs"
    then have "fst x \<in> fst ` set cs" by (rule imageI)
    moreover have "fst c \<notin> fst ` set cs" using Cons.prems(2) by simp
    ultimately have "fst x \<noteq> fst c" by metis
    then show "el_data (elements ?w1 (fst x)) = None"
      using f(8) [of "fst x"] Cons.prems(3) x by simp
  qed
  from Cons.IH [OF f(1) d this]
  have g: "\<not> google_defined ?w'"
    and n: "next_inst ?w' = next_inst ?w1 + length cs"
    and p: "pending ?w' = pending ?w1 @ [next_inst ?w1 ..< next_inst ?w1 + length cs]"
    and m: "next_map ?w' = next_map ?w1"
    and el: "\<And>k. k < length cs \<Longrightarrow> element (instances ?w' (next_inst ?w1 + k)) = fst (cs ! k)"
    and fr: "\<And>j. j < next_inst ?w1 \<Longrightarrow> instances ?w' j = instances ?w1 j"
    by simp_all
  have r: "run (map construct (c # cs)) w = ?w'" by simp
  have "pending ?w' = pending w @ [next_inst w ..< next_inst w + length (c # cs)]"
    unfolding p f(2) f(3) using upt_first [of "next_inst w" "length cs"] by simp
  moreover have "element (instances ?w' (next_inst w + k)) = fst ((c # cs) ! k)"
    if "k < length (c # cs)" for k
  proof (cases k)
    case 0
    have "instances ?w' (next_inst w) = instances ?w1 (next_inst w)"
      by (rule fr) (simp add: f(2))
    then show ?thesis using f(5) 0 by simp
  next
    case (Suc k')
    then have "k' < length cs" using that by simp
    from el [OF this] show ?thesis by (simp add: Suc f(2))
  qed
  moreover have "instances ?w' j = instances w j" if "j < next_inst w" for j
  proof -
    have "instances ?w' j = instances ?w1 j" by (rule fr) (use that f(2) in simp)
    then show ?thesis using f(7) [of j] that by simp
  qed
  ultimately show ?case
    unfolding r using g n m f(2) f(4) by simp
qed

lemma draw_all:
  assumes "google_defined w" and "distinct q"
  shows "\<exists>w'. each Plugin_draw q w = Inr w' \<and> next_map w' = next_map w + length q \<and>
           (\<forall>k < length q. gmap (instances w' (q ! k)) = Some (next_map w + k) \<and>
                 m_element (gmaps w' (next_map w + k)) = element (instances w (q ! k))) \<and>
           (\<forall>j. element (instances w' j) = element (instances w j)) \<and>
           (\<forall>j. j \<notin> set q \<longrightarrow> gmap (instances w' j) = gmap (instances w j)) \<and>
           (\<forall>m < next_map w. gmaps w' m = gmaps w m) \<and>
           window_googleMaps w' = window_googleMaps w"
  using assms
proof (induction q arbitrary: w)
  case Nil
  then show ?case by simp
next
  case (Cons i q)
  from draw_ready [OF Cons.prems(1), of i] obtain b g mk w1 where w1: "w1 =
       w\<lparr>instances := (instances w)(i := (instances w i)\<lparr>gmap := Some (next_map w), bounds := Some b\<rparr>),
           gmaps := (gmaps w)(next_map w := g),
           next_map := Suc (next_map w),
           markers := mk,
           resize_handlers := resize_handlers w @ (if o_responsive (options (instances w i)) then [i] else []),
           callback_calls := callback_calls w @
             (case o_callback (options (instances w i)) of None \<Rightarrow> [] | Some c \<Rightarrow> [(c, i)])\<rparr>"
    and d: "Plugin_draw i w = Inr w1" and ge: "m_element g = element (instances w i)"
    by blast
  have f1: "google_defined w1" "next_map w1 = Suc (next_map w)"
    "\<And>j. element (instances w1 j) = element (instances w j)"
    "gmap (instances w1 i) = Some (next_map w)"
    "\<And>j. j \<noteq> i \<Longrightarrow> gmap (instances w1 j) = gmap (instances w j)"
    "m_element (gmaps w1 (next_map w)) = element (instances w i)"
    "\<And>m. m < next_map w \<Longrightarrow> gmaps w1 m = gmaps w m"
    "window_googleMaps w1 = window_googleMaps w"
    using Cons.prems(1) ge by (simp_all add: w1)
  have dq: "distinct q" and iq: "i \<notin> set q" using Cons.prems(2) by simp_all
  from Cons.IH [OF f1(1) dq] obtain w'
    where e: "each Plugin_draw q w1 = Inr w'"
      and n: "next_map w' = next_map w1 + length q"
      and k: "\<And>k. k < length q \<Longrightarrow> gmap (instances w' (q ! k)) = Some (next_map w1 + k) \<and>
                 m_element (gmaps w' (next_map w1 + k)) = element (instances w1 (q ! k))"
      and el: "\<And>j. element (instances w' j) = element (instances w1 j)"
      and fr: "\<And>j. j \<notin> set q \<Longrightarrow> gmap (instances w' j) = gmap (instances w1 j)"
      and old: "\<And>m. m < next_map w1 \<Longrightarrow> gmaps w' m = gmaps w1 m"
      and qu: "window_googleMaps w' = window_googleMaps w1"
    by blast
  have "each Plugin_draw (i # q) w = Inr w'" using d e by simp
  moreover have "next_map w' = next_map w + length (i # q)" using n f1(2) by simp
  moreover have "gmap (instances w' ((i # q) ! k)) = Some (next_map w + k) \<and>
                 m_element (gmaps w' (next_map w + k)) = element (instances w ((i # q) ! k))"
    if "k < length (i # q)" for k
  proof (cases k)
    case 0
    have "gmap (instances w' i) = Some (next_map w)" using fr [OF iq] f1(4) by simp
    moreover have "gmaps w' (next_map w) = gmaps w1 (next_map w)"
      by (rule old) (simp add: f1(2))
    ultimately show ?thesis using f1(6) 0 by simp
  next
    case (Suc k')
    then have "k' < length q" using that by simp
    from k [OF this] show ?thesis by (simp add: Suc f1(2) f1(3))
  qed
  moreover have "\<forall>j. element (instances w' j) = element (instances w j)"
    using el f1(3) by simp
  moreover have "\<forall>j. j \<notin> set (i # q) \<longrightarrow> gmap (instances w' j) = gmap (instances w j)"
    using fr f1(5) by simp
  moreover have "\<forall>m < next_map w. gmaps w' m = gmaps w m"
    using old f1(2) f1(7) by simp
  moreover have "window_googleMaps w' = window_googleMaps w" using qu f1(8) by simp
  ultimately show ?case by blast
qed

lemma init_noop:
  "window_googleMaps w = None \<or> window_googleMaps w = Some [] \<Longrightarrow> googleMapsInit w = Inr w"
  by (auto simp: googleMapsInit_def)

text \<open>
  C4. On a page where the API is not there, construct instances on \<open>N\<close> different elements,
  one call each, each with its own options. Nothing is drawn, and the pending list holds
  the \<open>N\<close> instances in the order of construction. When the API is then there and the
  completion callback runs, it returns normally, \<open>N\<close> maps have been created, and the
  \<open>k\<close>-th map created is the map of the \<open>k\<close>-th instance constructed, on the \<open>k\<close>-th element:
  \<open>draw()\<close> has run once for each instance, in the order of construction. When the pending
  list is undefined or empty the callback changes nothing.
\<close>

theorem pending_drawn_in_order:
  assumes "distinct (map fst cs)"
  shows "pending (run (map construct cs) (init_world False page)) = [0 ..< length cs] \<and>
    next_map (run (map construct cs) (init_world False page)) = 0 \<and>
    (\<exists>w2. googleMapsInit (step GoogleDefined (run (map construct cs) (init_world False page))) = Inr w2 \<and>
       next_map w2 = length cs \<and>
       (\<forall>k < length cs. element (instances w2 k) = fst (cs ! k) \<and>
          gmap (instances w2 k) = Some k \<and> m_element (gmaps w2 k) = fst (cs ! k))) \<and>
    (window_googleMaps w = None \<or> window_googleMaps w = Some [] \<longrightarrow> googleMapsInit w = Inr w)"
proof -
  let ?w0 = "init_world False page"
  let ?w1 = "run (map construct cs) ?w0"
  let ?wg = "step GoogleDefined ?w1"
  have i0: "\<not> google_defined ?w0" "next_inst ?w0 = 0" "pending ?w0 = []" "next_map ?w0 = 0"
    "\<forall>c \<in> set cs. el_data (elements ?w0 (fst c)) = None"
    by (simp_all add: init_world_def pending_def)
  from construct_all_not_ready [OF i0(1) assms i0(5)]
  have p: "pending ?w1 = [0 ..< length cs]" and m: "next_map ?w1 = 0"
    and el: "\<And>k. k < length cs \<Longrightarrow> element (instances ?w1 k) = fst (cs ! k)"
    unfolding i0(2) i0(3) i0(4) by simp_all
  have noop: "googleMapsInit w = Inr w"
    if "window_googleMaps w = None \<or> window_googleMaps w = Some []"
    using that by (rule init_noop)
  have g: "google_defined ?wg" and same: "instances ?wg = instances ?w1" "next_map ?wg = 0"
    "window_googleMaps ?wg = window_googleMaps ?w1"
    using m by simp_all
  have "\<exists>w2. googleMapsInit ?wg = Inr w2 \<and> next_map w2 = length cs \<and>
       (\<forall>k < length cs. element (instances w2 k) = fst (cs ! k) \<and>
          gmap (instances w2 k) = Some k \<and> m_element (gmaps w2 k) = fst (cs ! k))"
  proof (cases "window_googleMaps ?w1")
    case None
    then have "[0 ..< length cs] = []" using p by (simp add: pending_def)
    then have "cs = []" by simp
    moreover have "googleMapsInit ?wg = Inr ?wg"
      by (rule init_noop) (use None same(3) in simp)
    ultimately show ?thesis using same(2) by simp
  next
    case (Some q)
    then have q: "q = [0 ..< length cs]" using p by (simp add: pending_def)
    have dq: "distinct q" by (simp add: q)
    from draw_all [OF g dq] obtain w2
      where e: "each Plugin_draw q ?wg = Inr w2" and n: "next_map w2 = next_map ?wg + length q"
        and k: "\<And>k. k < length q \<Longrightarrow> gmap (instances w2 (q ! k)) = Some (next_map ?wg + k) \<and>
                 m_element (gmaps w2 (next_map ?wg + k)) = element (instances ?wg (q ! k))"
        and ee: "\<And>j. element (instances w2 j) = element (instances ?wg j)"
      by blast
    have "googleMapsInit ?wg = Inr w2"
      using e Some same(3) by (simp add: googleMapsInit_def)
    moreover have "next_map w2 = length cs" using n same(2) by (simp add: q)
    moreover have "element (instances w2 k) = fst (cs ! k) \<and>
          gmap (instances w2 k) = Some k \<and> m_element (gmaps w2 k) = fst (cs ! k)"
      if "k < length cs" for k
    proof -
      have "k < length q" "q ! k = k" using that by (simp_all add: q)
      with k [of k] ee [of k] el [OF that] same show ?thesis by simp
    qed
    ultimately show ?thesis by blast
  qed
  with p m noop show ?thesis by blast
qed

theorem pending_drawn_in_order_witness:
  "distinct (map fst [(3::nat, defaults), (1, zoom5)]) \<and>
   pending (run (map construct [(3, defaults), (1, zoom5)]) (init_world False empty_page)) = [0 ..< 2] \<and>
   next_map (run (map construct [(3, defaults), (1, zoom5)]) (init_world False empty_page)) = 0 \<and>
   (\<exists>w2. googleMapsInit (step GoogleDefined (run (map construct [(3, defaults), (1, zoom5)]) (init_world False empty_page))) = Inr w2 \<and>
       next_map w2 = 2 \<and>
       (\<forall>k < 2. element (instances w2 k) = fst ([(3, defaults), (1, zoom5)] ! k) \<and>
          gmap (instances w2 k) = Some k \<and> m_element (gmaps w2 k) = fst ([(3, defaults), (1, zoom5)] ! k))) \<and>
   window_googleMaps (init_world False empty_page) = None \<and>
   googleMapsInit (init_world False empty_page) = Inr (init_world False empty_page)"
proof -
  have d: "distinct (map fst [(3::nat, defaults), (1, zoom5)])" by simp
  have n: "window_googleMaps (init_world False empty_page) = None" by (simp add: init_world_def)
  from pending_drawn_in_order [OF d, of empty_page "init_world False empty_page"] d n
  show ?thesis by (simp add: numeral_2_eq_2)
qed

subsection \<open>Further properties\<close>

lemma refs_ok_reachable: "refs_ok (run evs (init_world g page))"
  using refs_run [of "init_world g page" False 0 evs] refs_init [of g page] by simp

text \<open>The instance keeps the element, the style and the content that \<open>init()\<close> saved.\<close>

lemma saved_step:
  fixes w :: world
  assumes "element (instances w i) = e \<and> content (instances w i) = c \<and>
           styles (instances w i) = st \<and> i < next_inst w"
  shows "element (instances (step ev w) i) = e \<and> content (instances (step ev w) i) = c \<and>
         styles (instances (step ev w) i) = st \<and> i < next_inst (step ev w)"
proof (rule step_preserves [where Q = "\<lambda>w::world. element (instances w i) = e \<and>
          content (instances w i) = c \<and> styles (instances w i) = st \<and> i < next_inst w"
        and V = "\<lambda>i w. True"])
  show "element (instances w i) = e \<and> content (instances w i) = c \<and>
           styles (instances w i) = st \<and> i < next_inst w"
    by (rule assms)
next
  fix e' a and w :: world
  assume q: "element (instances w i) = e \<and> content (instances w i) = c \<and>
           styles (instances w i) = st \<and> i < next_inst w"
    and n: "el_data (elements w e') = None" and a: "\<forall>s. a \<noteq> ArgString s"
  show "element (instances (world_of (element_step e' a w)) i) = e \<and>
        content (instances (world_of (element_step e' a w)) i) = c \<and>
        styles (instances (world_of (element_step e' a w)) i) = st \<and>
        i < next_inst (world_of (element_step e' a w))"
  proof (cases "google_defined w")
    case False
    show ?thesis
      using q by (auto simp: construct_step_not_ready [OF False n a] alloc_defs)
  next
    case True
    let ?w1 = "(save_element (next_inst w) (alloc_Plugin e' a w))\<lparr>Plugin_loaded := True\<rparr>"
    from construct_step_ready [OF True n a] obtain w'
      where d: "Plugin_draw (next_inst w) ?w1 = Inr w'"
        and s: "element_step e' a w = Inr (upd_elem e' (\<lambda>x. x\<lparr>el_data := Some (next_inst w)\<rparr>) w')"
      by blast
    have w': "w' = world_of (Plugin_draw (next_inst w) ?w1)" using d by simp
    have "element (instances w' i) = element (instances ?w1 i)"
      "content (instances w' i) = content (instances ?w1 i)"
      "styles (instances w' i) = styles (instances ?w1 i)"
      "next_inst w' = next_inst ?w1"
      unfolding w' by (simp_all add: draw_frame)
    then show ?thesis
      using q by (auto simp: s alloc_defs)
  qed
qed (simp_all add: draw_frame remove_frame destroy_frame zoom_frame listener_frame upd_elem_def)

lemma saved_run:
  fixes w :: world
  assumes "element (instances w i) = e \<and> content (instances w i) = c \<and>
           styles (instances w i) = st \<and> i < next_inst w"
  shows "element (instances (run evs w) i) = e \<and> content (instances (run evs w) i) = c \<and>
         styles (instances (run evs w) i) = st \<and> i < next_inst (run evs w)"
  by (rule run_preserves [where Q = "\<lambda>w::world. element (instances w i) = e \<and>
          content (instances w i) = c \<and> styles (instances w i) = st \<and> i < next_inst w"])
     (use assms saved_step in blast)+

lemma construct_saves:
  assumes "el_data (elements w e) = None"
  shows "element (instances (step (construct (e, opts)) w) (next_inst w)) = e \<and>
         content (instances (step (construct (e, opts)) w) (next_inst w)) = Some (el_html (elements w e)) \<and>
         styles (instances (step (construct (e, opts)) w) (next_inst w)) = el_style (elements w e) \<and>
         next_inst w < next_inst (step (construct (e, opts)) w)"
proof -
  have a: "\<forall>s. ArgOptions opts \<noteq> ArgString s" by simp
  have st: "step (construct (e, opts)) w = world_of (element_step e (ArgOptions opts) w)"
    unfolding construct_def step_Call by (simp add: jQuery_def split: sum.splits)
  show ?thesis
  proof (cases "google_defined w")
    case False
    show ?thesis
      unfolding st by (simp add: construct_step_not_ready [OF False assms a] alloc_defs)
  next
    case True
    let ?w1 = "(save_element (next_inst w) (alloc_Plugin e (ArgOptions opts) w))\<lparr>Plugin_loaded := True\<rparr>"
    from construct_step_ready [OF True assms a] obtain w'
      where d: "Plugin_draw (next_inst w) ?w1 = Inr w'"
        and s: "element_step e (ArgOptions opts) w =
                  Inr (upd_elem e (\<lambda>x. x\<lparr>el_data := Some (next_inst w)\<rparr>) w')"
      by blast
    have w': "w' = world_of (Plugin_draw (next_inst w) ?w1)" using d by simp
    have "element (instances w' (next_inst w)) = element (instances ?w1 (next_inst w))"
      "content (instances w' (next_inst w)) = content (instances ?w1 (next_inst w))"
      "styles (instances w' (next_inst w)) = styles (instances ?w1 (next_inst w))"
      "next_inst w' = next_inst ?w1"
      unfolding w' by (simp_all add: draw_frame)
    then show ?thesis
      unfolding st by (simp add: s alloc_defs)
  qed
qed

lemma reparse_step:
  fixes w :: world
  assumes "html_reparse w = r"
  shows "html_reparse (step ev w) = r"
proof (rule step_preserves [where Q = "\<lambda>w::world. html_reparse w = r" and V = "\<lambda>i w. True"])
  show "html_reparse w = r" by (rule assms)
next
  fix e a and w :: world
  assume q: "html_reparse w = r"
    and n: "el_data (elements w e) = None" and a: "\<forall>s. a \<noteq> ArgString s"
  show "html_reparse (world_of (element_step e a w)) = r"
  proof (cases "google_defined w")
    case False
    show ?thesis
      using q by (auto simp: construct_step_not_ready [OF False n a] alloc_defs)
  next
    case True
    let ?w1 = "(save_element (next_inst w) (alloc_Plugin e a w))\<lparr>Plugin_loaded := True\<rparr>"
    from construct_step_ready [OF True n a] obtain w'
      where d: "Plugin_draw (next_inst w) ?w1 = Inr w'"
        and s: "element_step e a w = Inr (upd_elem e (\<lambda>x. x\<lparr>el_data := Some (next_inst w)\<rparr>) w')"
      by blast
    have "w' = world_of (Plugin_draw (next_inst w) ?w1)" using d by simp
    then have "html_reparse w' = html_reparse ?w1" by (simp add: reparse_frame)
    then show ?thesis using q by (simp add: s alloc_defs)
  qed
qed (simp_all add: reparse_frame upd_elem_def)

lemma reparse_run: "html_reparse (run evs w) = html_reparse w"
  by (rule run_preserves [where Q = "\<lambda>w'::world. html_reparse w' = html_reparse w"])
     (simp_all add: reparse_step)

text \<open>
  X1. What \<open>remove()\<close> does restore. Construct an instance on an element that has none, let
  anything happen, and remove the instance: the element holds what the browser makes of
  the inner content that was saved at construction (the saved content itself when the
  browser gives that markup back unchanged), it has the style attribute it had at
  construction when it had one, and its data slot is as it was before \<open>remove()\<close>.
\<close>

theorem remove_restores_saved:
  assumes "el_data (elements w e) = None"
  shows "el_html (elements (Plugin_remove (next_inst w) (run evs (step (construct (e, opts)) w))) e) =
           html_reparse w (el_html (elements w e)) \<and>
         (el_style (elements w e) \<noteq> None \<longrightarrow>
            el_style (elements (Plugin_remove (next_inst w) (run evs (step (construct (e, opts)) w))) e) =
              el_style (elements w e)) \<and>
         el_data (elements (Plugin_remove (next_inst w) (run evs (step (construct (e, opts)) w))) e) =
           el_data (elements (run evs (step (construct (e, opts)) w)) e)"
proof -
  let ?w2 = "run evs (step (construct (e, opts)) w)"
  have "element (instances ?w2 (next_inst w)) = e \<and>
        content (instances ?w2 (next_inst w)) = Some (el_html (elements w e)) \<and>
        styles (instances ?w2 (next_inst w)) = el_style (elements w e) \<and>
        next_inst w < next_inst ?w2"
    by (rule saved_run) (rule construct_saves [OF assms])
  moreover have "html_reparse ?w2 = html_reparse w"
    by (simp add: reparse_run reparse_step [of w "html_reparse w"])
  ultimately show ?thesis
    by (auto simp: Plugin_remove_def jq_html_set_def jq_attr_style_set_def upd_elem_def
        split: option.splits)
qed

theorem remove_restores_saved_witness:
  "el_data (elements (init_world True plain_page) 0) = None \<and>
   el_html (elements (Plugin_remove (next_inst (init_world True plain_page))
       (run [DomWrite 0 (Some ''position: relative; overflow: hidden;'') ''<div>map</div>'']
          (step (construct (0, defaults)) (init_world True plain_page)))) 0) = ''<p>loading</p>''"
proof -
  have h: "el_data (elements (init_world True plain_page) 0) = None"
    by (simp add: init_world_def)
  from remove_restores_saved [OF h, of "[DomWrite 0 (Some ''position: relative; overflow: hidden;'') ''<div>map</div>'']" defaults] h
  show ?thesis by (simp add: init_world_def plain_page_def)
qed

text \<open>
  X2. A named command on elements that hold no instance does nothing and raises nothing: the
  collection comes back and the world is as it was.
\<close>

theorem command_without_instance:
  assumes "\<forall>e \<in> set es. el_data (elements w e) = None"
  shows "fn_googleMaps (jQuery es) (ArgString s) w = Inr (RetCollection (jQuery es), w)"
proof -
  have "each (\<lambda>e. element_step e (ArgString s)) es w = Inr w"
    using assms by (induction es) (simp_all add: element_step_def)
  then show ?thesis by (simp add: fn_googleMaps_def jQuery_def)
qed

theorem command_without_instance_witness:
  "el_data (elements (init_world True empty_page) 0) = None \<and>
   fn_googleMaps (jQuery [0]) (ArgString ''redraw'') (init_world True empty_page) =
     Inr (RetCollection (jQuery [0]), init_world True empty_page)"
proof -
  have h: "\<forall>e \<in> set [0]. el_data (elements (init_world True empty_page) e) = None"
    by (simp add: init_world_def)
  from command_without_instance [OF h, of "''redraw''"] h show ?thesis by simp
qed

text \<open>
  X3. Constructing with the one point \<open>{lat: 10, lng: 20, marker: true, title: "A"}\<close> while the
  API is there draws once: one map, whose bounds hold \<open>(10, 20)\<close> and which is fitted to
  them, and one marker on that map at \<open>(10, 20)\<close> with the title \<open>A\<close>, the default icon and
  no info window.
\<close>

theorem one_point_drawn:
  "next_map (step (construct (0, one_point)) (init_world True empty_page)) = 1 \<and>
   bounds (instances (step (construct (0, one_point)) (init_world True empty_page)) 0) =
     Some [(JNum 10, JNum 20)] \<and>
   m_calls (gmaps (step (construct (0, one_point)) (init_world True empty_page)) 0) =
     [SetOptions [], FitBounds (Some [(JNum 10, JNum 20)])] \<and>
   markers (step (construct (0, one_point)) (init_world True empty_page)) =
     [\<lparr>mk_map = Some 0, mk_position = (JNum 10, JNum 20), mk_icon = None,
       mk_title = Some (JStr ''A''), mk_info = None\<rparr>]"
  by (simp add: eval_defs one_point_def titled_point_def or_false_def Let_def)


end
